theory Spec2Isabelle
  imports Main "HOL-Library.Finite_Map"
begin

section \<open>Python values and errors\<close>

text \<open>
  The generator script \<^verbatim>\<open>.github/workflows/scripts/generate_daily_code.py\<close> is
  embedded function by function. Every Python exception the embedded code can raise is a
  constructor of \<open>error\<close>; a function that can raise returns \<open>error + 'a\<close>.
  \<open>Unmodelled\<close> is not a Python exception: it marks a format string that uses replacement
  field syntax (conversions, format specifications, attribute or index access, nested
  fields) which the embedding of \<^verbatim>\<open>str.format\<close> does not cover. No template of the
  registry reaches it.
\<close>

datatype error =
    IndexError
  | KeyError string
  | ValueError
  | FileExistsError
  | FileNotFoundError
  | NotADirectoryError
  | IsADirectoryError
  | Unmodelled

text \<open>\<^verbatim>\<open>str(n)\<close> for a non-negative and for an arbitrary Python integer.\<close>

definition digit_char :: "nat \<Rightarrow> char" where
  "digit_char d = ''0123456789'' ! d"

fun str_nat :: "nat \<Rightarrow> string" where
  "str_nat n = (if n < 10 then [digit_char n] else str_nat (n div 10) @ [digit_char (n mod 10)])"

declare str_nat.simps [simp del]

definition str_int :: "int \<Rightarrow> string" where
  "str_int i = (if i < 0 then CHR ''-'' # str_nat (nat (- i)) else str_nat (nat i))"

text \<open>
  The values the parameter generators produce: an integer, a string, a list of integers
  and a list of lists of integers. \<open>py_str\<close> is \<^verbatim>\<open>str(v)\<close>, which is what
  \<^verbatim>\<open>str.format\<close> inserts for a field without a format specification.
\<close>

datatype pyval = PyInt int | PyStr string | PyIntList "int list" | PyGrid "int list list"

fun join_with :: "string \<Rightarrow> string list \<Rightarrow> string" where
  "join_with sep [] = []"
| "join_with sep [x] = x"
| "join_with sep (x # y # ys) = x @ sep @ join_with sep (y # ys)"

definition str_int_list :: "int list \<Rightarrow> string" where
  "str_int_list xs = ''['' @ join_with '', '' (map str_int xs) @ '']''"

fun py_str :: "pyval \<Rightarrow> string" where
  "py_str (PyInt i) = str_int i"
| "py_str (PyStr s) = s"
| "py_str (PyIntList xs) = str_int_list xs"
| "py_str (PyGrid rows) = ''['' @ join_with '', '' (map str_int_list rows) @ '']''"

text \<open>
  \<^verbatim>\<open>int(s)\<close> on a string of ASCII decimal digits; any other string is a
  \<^verbatim>\<open>ValueError\<close> here (the script only passes the digits \<^verbatim>\<open>strftime\<close> produced).
\<close>

definition digit_value :: "char \<Rightarrow> nat option" where
  "digit_value c = map_of (zip ''0123456789'' [0, 1, 2, 3, 4, 5, 6, 7, 8, 9]) c"

fun int_of_digits :: "nat \<Rightarrow> string \<Rightarrow> error + nat" where
  "int_of_digits acc [] = Inr acc"
| "int_of_digits acc (c # cs) =
     (case digit_value c of
        None \<Rightarrow> Inl ValueError
      | Some d \<Rightarrow> int_of_digits (10 * acc + d) cs)"

definition py_int :: "string \<Rightarrow> error + int" where
  "py_int s =
     (if s = [] then Inl ValueError
      else (case int_of_digits 0 s of Inl e \<Rightarrow> Inl e | Inr n \<Rightarrow> Inr (int n)))"

section \<open>The clock\<close>

text \<open>
  A reading of \<^verbatim>\<open>datetime.utcnow()\<close>, with the fields the script formats.
  \<^verbatim>\<open>strftime\<close> writes the year with at least four digits and month, day, hour and
  minute with two.
\<close>

record datetime =
  year :: nat
  month :: nat
  day :: nat
  hour :: nat
  minute :: nat

definition zfill :: "nat \<Rightarrow> string \<Rightarrow> string" where
  "zfill w s = replicate (w - length s) (CHR ''0'') @ s"

definition strftime_Ymd :: "datetime \<Rightarrow> string" where
  "strftime_Ymd d = zfill 4 (str_nat (year d)) @ zfill 2 (str_nat (month d)) @ zfill 2 (str_nat (day d))"

definition strftime_date :: "datetime \<Rightarrow> string" where
  "strftime_date d =
     zfill 4 (str_nat (year d)) @ ''-'' @ zfill 2 (str_nat (month d)) @ ''-'' @ zfill 2 (str_nat (day d))"

definition strftime_year :: "datetime \<Rightarrow> string" where
  "strftime_year d = zfill 4 (str_nat (year d))"

definition strftime_stamp :: "datetime \<Rightarrow> string" where
  "strftime_stamp d =
     strftime_date d @ '' '' @ zfill 2 (str_nat (hour d)) @ '':'' @ zfill 2 (str_nat (minute d)) @ '' UTC''"

text \<open>\<^verbatim>\<open>today_seed\<close>: \<^verbatim>\<open>int(datetime.utcnow().strftime("%Y%m%d"))\<close>.\<close>

definition today_seed :: "datetime \<Rightarrow> error + int" where
  "today_seed now = py_int (strftime_Ymd now)"

text \<open>
  \<^verbatim>\<open>main\<close> reads the clock four times: for the seed, for \<^verbatim>\<open>date_str\<close>, for the
  year directory and, in \<^verbatim>\<open>update_index\<close>, for the timestamp of the index line.
\<close>

record clock =
  at_seed :: datetime
  at_date :: datetime
  at_year :: datetime
  at_index :: datetime

section \<open>Slug and title\<close>

definition lower_char :: "char \<Rightarrow> char" where
  "lower_char c =
     (case map_of (zip ''ABCDEFGHIJKLMNOPQRSTUVWXYZ'' ''abcdefghijklmnopqrstuvwxyz'') c of
        Some l \<Rightarrow> l | None \<Rightarrow> c)"

definition upper_char :: "char \<Rightarrow> char" where
  "upper_char c =
     (case map_of (zip ''abcdefghijklmnopqrstuvwxyz'' ''ABCDEFGHIJKLMNOPQRSTUVWXYZ'') c of
        Some u \<Rightarrow> u | None \<Rightarrow> c)"

definition is_alpha :: "char \<Rightarrow> bool" where
  "is_alpha c = (c \<in> set ''abcdefghijklmnopqrstuvwxyzABCDEFGHIJKLMNOPQRSTUVWXYZ'')"

definition is_slug_char :: "char \<Rightarrow> bool" where
  "is_slug_char c = (c \<in> set ''abcdefghijklmnopqrstuvwxyz0123456789_'')"

text \<open>
  \<^verbatim>\<open>re.sub(r"[^a-z0-9_]+", "_", s)\<close>: every maximal run of characters outside
  \<^verbatim>\<open>[a-z0-9_]\<close> becomes one underscore. The flag says that the previous character
  belonged to such a run. Names are ASCII (as all names of the registry are).
\<close>

fun sub_runs :: "bool \<Rightarrow> string \<Rightarrow> string" where
  "sub_runs in_run [] = []"
| "sub_runs in_run (c # cs) =
     (if is_slug_char c then c # sub_runs False cs
      else if in_run then sub_runs True cs
      else CHR ''_'' # sub_runs True cs)"

definition slugify :: "string \<Rightarrow> string" where
  "slugify nm = sub_runs False (map lower_char nm)"

text \<open>
  \<^verbatim>\<open>s.replace("_", " ").title()\<close>: a letter is upper-cased when the character before
  it is not a letter and lower-cased otherwise.
\<close>

fun title_go :: "bool \<Rightarrow> string \<Rightarrow> string" where
  "title_go prev_cased [] = []"
| "title_go prev_cased (c # cs) =
     (if is_alpha c then (if prev_cased then lower_char c else upper_char c) # title_go True cs
      else c # title_go False cs)"

definition title_of :: "string \<Rightarrow> string" where
  "title_of nm = title_go False (map (\<lambda>c. if c = CHR ''_'' then CHR '' '' else c) nm)"

section \<open>The pseudo-random generator\<close>

text \<open>
  \<^verbatim>\<open>random.Random\<close> belongs to the Python library, not to this repository. It is a
  parameter of the embedding: a type \<open>'s\<close> of generator states, a function from the seed to
  the initial state, and \<^verbatim>\<open>_randbelow\<close>, which takes a state and a bound \<open>n\<close> and
  returns a number and the next state. \<^verbatim>\<open>randint(a, b)\<close> is \<^verbatim>\<open>a + _randbelow(b - a + 1)\<close>
  (every call site passes literals with \<open>a \<le> b\<close>), and \<^verbatim>\<open>choice(seq)\<close> is
  \<^verbatim>\<open>seq[_randbelow(len(seq))]\<close>, an \<^verbatim>\<open>IndexError\<close> when the index is out of range.
\<close>

type_synonym 's randbelow = "'s \<Rightarrow> nat \<Rightarrow> nat \<times> 's"

definition randbelow_in_range :: "'s randbelow \<Rightarrow> bool" where
  "randbelow_in_range rb = (\<forall>s n. 0 < n \<longrightarrow> fst (rb s n) < n)"

definition randint :: "'s randbelow \<Rightarrow> int \<Rightarrow> int \<Rightarrow> 's \<Rightarrow> int \<times> 's" where
  "randint rb a b s = (case rb s (nat (b - a + 1)) of (k, s') \<Rightarrow> (a + int k, s'))"

definition choice :: "'s randbelow \<Rightarrow> 'a list \<Rightarrow> 's \<Rightarrow> error + 'a \<times> 's" where
  "choice rb seq s =
     (case rb s (length seq) of
        (i, s') \<Rightarrow> if i < length seq then Inr (seq ! i, s') else Inl IndexError)"

text \<open>
  A comprehension \<^verbatim>\<open>[f(r) for _ in range(k)]\<close>: \<open>k\<close> draws, one after the other, each
  from the state the previous one left.
\<close>

fun repeat_draw :: "nat \<Rightarrow> ('s \<Rightarrow> error + 'a \<times> 's) \<Rightarrow> 's \<Rightarrow> error + 'a list \<times> 's" where
  "repeat_draw 0 f s = Inr ([], s)"
| "repeat_draw (Suc k) f s =
     (case f s of
        Inl e \<Rightarrow> Inl e
      | Inr (x, s1) \<Rightarrow>
          (case repeat_draw k f s1 of
             Inl e \<Rightarrow> Inl e
           | Inr (xs, s2) \<Rightarrow> Inr (x # xs, s2)))"

section \<open>The template registry\<close>

text \<open>
  The code bodies, character by character as the triple-quoted literals of
  \<^verbatim>\<open>pick_template\<close> hold them: a newline first, every line indented by sixteen
  spaces, twelve spaces after the last newline.
\<close>

definition code_fibonacci_iterative :: string where
  \<open>code_fibonacci_iterative = concat
    [''\<newline>'',
     ''                def fibonacci(n: int) -> list[int]:\<newline>'',
     ''                    """Return the first n Fibonacci numbers (n>=1)."""\<newline>'',
     ''                    if n <= 0:\<newline>'',
     ''                        return []\<newline>'',
     ''                    if n == 1:\<newline>'',
     ''                        return [0]\<newline>'',
     ''                    seq = [0, 1]\<newline>'',
     ''                    for _ in range(2, n):\<newline>'',
     ''                        seq.append(seq[-1] + seq[-2])\<newline>'',
     ''                    return seq\<newline>'',
     ''                if __name__ == "__main__":\<newline>'',
     ''                    N = {N}\<newline>'',
     ''                    print(f"Fibonacci first {N}: ", fibonacci(N))\<newline>'',
     ''            '']\<close>

definition code_sieve_of_eratosthenes :: string where
  \<open>code_sieve_of_eratosthenes = concat
    [''\<newline>'',
     ''                def primes_up_to(limit: int) -> list[int]:\<newline>'',
     ''                    """Return all primes <= limit using the sieve."""\<newline>'',
     ''                    if limit < 2:\<newline>'',
     ''                        return []\<newline>'',
     ''                    sieve = [True] * (limit + 1)\<newline>'',
     ''                    sieve[0] = sieve[1] = False\<newline>'',
     ''                    p = 2\<newline>'',
     ''                    while p * p <= limit:\<newline>'',
     ''                        if sieve[p]:\<newline>'',
     ''                            for m in range(p * p, limit + 1, p):\<newline>'',
     ''                                sieve[m] = False\<newline>'',
     ''                        p += 1\<newline>'',
     ''                    return [i for i, is_prime in enumerate(sieve) if is_prime]\<newline>'',
     ''                if __name__ == "__main__":\<newline>'',
     ''                    LIMIT = {LIMIT}\<newline>'',
     ''                    print(f"Primes up to {LIMIT}: ", primes_up_to(LIMIT))\<newline>'',
     ''            '']\<close>

definition code_merge_sort :: string where
  \<open>code_merge_sort = concat
    [''\<newline>'',
     ''                from typing import List, TypeVar\<newline>'',
     ''                T = TypeVar('T')\<newline>'',
     ''\<newline>'',
     ''                def merge_sort(arr: List[T]) -> List[T]:\<newline>'',
     ''                    if len(arr) <= 1:\<newline>'',
     ''                        return arr[:]\<newline>'',
     ''                    mid = len(arr) // 2\<newline>'',
     ''                    left = merge_sort(arr[:mid])\<newline>'',
     ''                    right = merge_sort(arr[mid:])\<newline>'',
     ''                    return merge(left, right)\<newline>'',
     ''\<newline>'',
     ''                def merge(left: List[T], right: List[T]) -> List[T]:\<newline>'',
     ''                    i = j = 0\<newline>'',
     ''                    out: List[T] = []\<newline>'',
     ''                    while i < len(left) and j < len(right):\<newline>'',
     ''                        if left[i] <= right[j]:\<newline>'',
     ''                            out.append(left[i]); i += 1\<newline>'',
     ''                        else:\<newline>'',
     ''                            out.append(right[j]); j += 1\<newline>'',
     ''                    out.extend(left[i:]); out.extend(right[j:])\<newline>'',
     ''                    return out\<newline>'',
     ''\<newline>'',
     ''                if __name__ == "__main__":\<newline>'',
     ''                    data = {DATA}\<newline>'',
     ''                    print("Input:", data)\<newline>'',
     ''                    print("Sorted:", merge_sort(data))\<newline>'',
     ''            '']\<close>

definition code_levenshtein_distance :: string where
  \<open>code_levenshtein_distance = concat
    [''\<newline>'',
     ''                def levenshtein(a: str, b: str) -> int:\<newline>'',
     ''                    """Return edit distance between a and b."""\<newline>'',
     ''                    if a == b:\<newline>'',
     ''                        return 0\<newline>'',
     ''                    if not a:\<newline>'',
     ''                        return len(b)\<newline>'',
     ''                    if not b:\<newline>'',
     ''                        return len(a)\<newline>'',
     ''                    prev = list(range(len(b) + 1))\<newline>'',
     ''                    for i, ca in enumerate(a, 1):\<newline>'',
     ''                        curr = [i]\<newline>'',
     ''                        for j, cb in enumerate(b, 1):\<newline>'',
     ''                            ins = curr[j-1] + 1\<newline>'',
     ''                            delete = prev[j] + 1\<newline>'',
     ''                            subst = prev[j-1] + (ca != cb)\<newline>'',
     ''                            curr.append(min(ins, delete, subst))\<newline>'',
     ''                        prev = curr\<newline>'',
     ''                    return prev[-1]\<newline>'',
     ''\<newline>'',
     ''                if __name__ == "__main__":\<newline>'',
     ''                    A = "{A}"\<newline>'',
     ''                    B = "{B}"\<newline>'',
     ''                    print(f"levenshtein('{A}','{B}') =", levenshtein(A, B))\<newline>'',
     ''            '']\<close>

definition code_dijkstra_on_grid :: string where
  \<open>code_dijkstra_on_grid = concat
    [''\<newline>'',
     ''                import heapq\<newline>'',
     ''                from typing import Tuple, List\<newline>'',
     ''\<newline>'',
     ''                def neighbors(r: int, c: int, R: int, C: int):\<newline>'',
     ''                    for dr, dc in ((1,0),(-1,0),(0,1),(0,-1)):\<newline>'',
     ''                        nr, nc = r+dr, c+dc\<newline>'',
     ''                        if 0 <= nr < R and 0 <= nc < C:\<newline>'',
     ''                            yield nr, nc\<newline>'',
     ''\<newline>'',
     ''                def dijkstra(grid: List[List[int]], start=(0,0), goal=None) -> int:\<newline>'',
     ''                    R, C = len(grid), len(grid[0])\<newline>'',
     ''                    if goal is None: goal = (R-1, C-1)\<newline>'',
     ''                    dist = [[float('inf')]*C for _ in range(R)]\<newline>'',
     ''                    sr, sc = start\<newline>'',
     ''                    dist[sr][sc] = grid[sr][sc]\<newline>'',
     ''                    pq: List[Tuple[int,int,int]] = [(grid[sr][sc], sr, sc)]\<newline>'',
     ''                    while pq:\<newline>'',
     ''                        d, r, c = heapq.heappop(pq)\<newline>'',
     ''                        if (r,c) == goal:\<newline>'',
     ''                            return d\<newline>'',
     ''                        if d != dist[r][c]:\<newline>'',
     ''                            continue\<newline>'',
     ''                        for nr, nc in neighbors(r,c,R,C):\<newline>'',
     ''                            nd = d + grid[nr][nc]\<newline>'',
     ''                            if nd < dist[nr][nc]:\<newline>'',
     ''                                dist[nr][nc] = nd\<newline>'',
     ''                                heapq.heappush(pq, (nd, nr, nc))\<newline>'',
     ''                    return -1\<newline>'',
     ''\<newline>'',
     ''                if __name__ == "__main__":\<newline>'',
     ''                    grid = {GRID}\<newline>'',
     ''                    print("Grid:")\<newline>'',
     ''                    for row in grid: print(row)\<newline>'',
     ''                    print("Min path cost:", dijkstra(grid))\<newline>'',
     ''            '']\<close>

record 's template =
  name :: string
  desc :: string
  code :: string
  params :: "'s randbelow \<Rightarrow> 's \<Rightarrow> error + (string \<times> pyval) list \<times> 's"

text \<open>The \<^verbatim>\<open>"params"\<close> lambdas, in the order Python evaluates their draws.\<close>

definition params_fibonacci_iterative ::
  "'s randbelow \<Rightarrow> 's \<Rightarrow> error + (string \<times> pyval) list \<times> 's" where
  "params_fibonacci_iterative rb s =
     (case randint rb 8 20 s of (n, s1) \<Rightarrow> Inr ([(''N'', PyInt n)], s1))"

definition params_sieve_of_eratosthenes ::
  "'s randbelow \<Rightarrow> 's \<Rightarrow> error + (string \<times> pyval) list \<times> 's" where
  "params_sieve_of_eratosthenes rb s =
     (case randint rb 50 200 s of (n, s1) \<Rightarrow> Inr ([(''LIMIT'', PyInt n)], s1))"

definition params_merge_sort ::
  "'s randbelow \<Rightarrow> 's \<Rightarrow> error + (string \<times> pyval) list \<times> 's" where
  "params_merge_sort rb s =
     (case randint rb 8 14 s of
        (k, s1) \<Rightarrow>
          (case repeat_draw (nat k) (\<lambda>s. Inr (randint rb (- 50) 50 s)) s1 of
             Inl e \<Rightarrow> Inl e
           | Inr (xs, s2) \<Rightarrow>
               Inr ([(''DATA'', PyIntList (if sort (remdups xs) = [] then [0] else sort (remdups xs)))],
                    s2)))"

definition random_word :: "'s randbelow \<Rightarrow> string \<Rightarrow> 's \<Rightarrow> error + string \<times> 's" where
  "random_word rb letters s =
     (case randint rb 4 7 s of (k, s1) \<Rightarrow> repeat_draw (nat k) (choice rb letters) s1)"

definition params_levenshtein_distance ::
  "'s randbelow \<Rightarrow> 's \<Rightarrow> error + (string \<times> pyval) list \<times> 's" where
  "params_levenshtein_distance rb s =
     (case random_word rb ''codecraft'' s of
        Inl e \<Rightarrow> Inl e
      | Inr (a, s1) \<Rightarrow>
          (case random_word rb ''workflows'' s1 of
             Inl e \<Rightarrow> Inl e
           | Inr (b, s2) \<Rightarrow> Inr ([(''A'', PyStr a), (''B'', PyStr b)], s2)))"

definition random_row :: "'s randbelow \<Rightarrow> 's \<Rightarrow> error + int list \<times> 's" where
  "random_row rb s =
     (case randint rb 4 6 s of
        (c, s1) \<Rightarrow> repeat_draw (nat c) (\<lambda>s. Inr (randint rb 1 9 s)) s1)"

definition params_dijkstra_on_grid ::
  "'s randbelow \<Rightarrow> 's \<Rightarrow> error + (string \<times> pyval) list \<times> 's" where
  "params_dijkstra_on_grid rb s =
     (case randint rb 4 6 s of
        (r, s1) \<Rightarrow>
          (case repeat_draw (nat r) (random_row rb) s1 of
             Inl e \<Rightarrow> Inl e
           | Inr (g, s2) \<Rightarrow> Inr ([(''GRID'', PyGrid g)], s2)))"

definition templates :: "'s template list" where
  "templates =
     [\<lparr>name = ''fibonacci_iterative'',
       desc = ''Compute the first N Fibonacci numbers iteratively.'',
       code = code_fibonacci_iterative,
       params = params_fibonacci_iterative\<rparr>,
      \<lparr>name = ''sieve_of_eratosthenes'',
       desc = ''Generate primes up to a limit using the Sieve of Eratosthenes.'',
       code = code_sieve_of_eratosthenes,
       params = params_sieve_of_eratosthenes\<rparr>,
      \<lparr>name = ''merge_sort'',
       desc = ''Stable merge sort implementation with type hints.'',
       code = code_merge_sort,
       params = params_merge_sort\<rparr>,
      \<lparr>name = ''levenshtein_distance'',
       desc = ''Compute Levenshtein (edit) distance between two strings.'',
       code = code_levenshtein_distance,
       params = params_levenshtein_distance\<rparr>,
      \<lparr>name = ''dijkstra_on_grid'',
       desc = ''Dijkstra shortest path on a small weighted grid (no deps).'',
       code = code_dijkstra_on_grid,
       params = params_dijkstra_on_grid\<rparr>]"

definition pick_template :: "'s randbelow \<Rightarrow> 's \<Rightarrow> error + 's template \<times> 's" where
  "pick_template rb rng = choice rb templates rng"

section \<open>The renderer\<close>

text \<open>
  \<^verbatim>\<open>textwrap.dedent\<close>: lines of spaces and tabs only become empty; the margin is the
  longest common leading run of spaces and tabs of the other non-empty lines; the margin
  is removed from every line that starts with it.
\<close>

fun split_lines_acc :: "string \<Rightarrow> string \<Rightarrow> string list" where
  "split_lines_acc acc [] = [rev acc]"
| "split_lines_acc acc (c # cs) =
     (if c = CHR 0x0A then rev acc # split_lines_acc [] cs else split_lines_acc (c # acc) cs)"

definition split_lines :: "string \<Rightarrow> string list" where
  "split_lines s = split_lines_acc [] s"

definition is_indent_char :: "char \<Rightarrow> bool" where
  "is_indent_char c = (c = CHR '' '' \<or> c = CHR 0x09)"

definition blank_to_empty :: "string \<Rightarrow> string" where
  "blank_to_empty l = (if list_all is_indent_char l then [] else l)"

fun common_prefix :: "string \<Rightarrow> string \<Rightarrow> string" where
  "common_prefix (x # xs) (y # ys) = (if x = y then x # common_prefix xs ys else [])"
| "common_prefix xs ys = []"

definition starts_with :: "string \<Rightarrow> string \<Rightarrow> bool" where
  "starts_with s p = (take (length p) s = p)"

definition margin_step :: "string \<Rightarrow> string \<Rightarrow> string" where
  "margin_step margin indent =
     (if starts_with indent margin then margin
      else if starts_with margin indent then indent
      else common_prefix margin indent)"

definition dedent :: "string \<Rightarrow> string" where
  "dedent text =
     (let ls = map blank_to_empty (split_lines text);
          indents = map (takeWhile is_indent_char) (filter (\<lambda>l. l \<noteq> []) ls);
          margin = (case indents of [] \<Rightarrow> [] | i # is \<Rightarrow> foldl margin_step i is)
      in join_with [CHR 0x0A]
           (map (\<lambda>l. if margin \<noteq> [] \<and> starts_with l margin then drop (length margin) l else l) ls))"

text \<open>
  \<^verbatim>\<open>str.format(**params)\<close>, read left to right. \<^verbatim>\<open>{{\<close> and \<^verbatim>\<open>}}\<close> are escaped
  braces; a single \<^verbatim>\<open>}\<close>, or a \<^verbatim>\<open>{\<close> that is never closed, is a
  \<^verbatim>\<open>ValueError\<close>; \<^verbatim>\<open>{NAME}\<close> is replaced by \<^verbatim>\<open>str(params[NAME])\<close> and is a
  \<^verbatim>\<open>KeyError\<close> when \<^verbatim>\<open>NAME\<close> is not a key. An empty or numeric field name refers to
  a positional argument, of which there is none (\<^verbatim>\<open>IndexError\<close>).
\<close>

definition field_end :: "string \<Rightarrow> (string \<times> string) option" where
  "field_end cs =
     (if CHR ''}'' \<in> set cs
      then Some (takeWhile (\<lambda>c. c \<noteq> CHR ''}'') cs, tl (dropWhile (\<lambda>c. c \<noteq> CHR ''}'') cs))
      else None)"

definition is_digit :: "char \<Rightarrow> bool" where
  "is_digit c = (c \<in> set ''0123456789'')"

definition field_kind :: "string \<Rightarrow> error option" where
  "field_kind fld =
     (if list_ex (\<lambda>x. x \<in> set ''{.[!:'') fld then Some Unmodelled
      else if list_all is_digit fld then Some IndexError
      else None)"

lemma field_end_length: "field_end cs = Some (fld, rest) \<Longrightarrow> length rest \<le> length cs"
proof -
  assume "field_end cs = Some (fld, rest)"
  then have "rest = tl (dropWhile (\<lambda>c. c \<noteq> CHR ''}'') cs)"
    by (simp add: field_end_def split: if_splits)
  moreover have "length (dropWhile (\<lambda>c. c \<noteq> CHR ''}'') cs) \<le> length cs"
    by (rule length_dropWhile_le)
  ultimately show ?thesis by simp
qed

function py_format :: "(string \<Rightarrow> pyval option) \<Rightarrow> string \<Rightarrow> error + string" where
  "py_format env [] = Inr []"
| "py_format env (c # cs) =
     (if c = CHR ''{'' then
        (case cs of
           [] \<Rightarrow> Inl ValueError
         | d # ds \<Rightarrow>
             if d = CHR ''{'' then
               (case py_format env ds of Inl e \<Rightarrow> Inl e | Inr out \<Rightarrow> Inr (CHR ''{'' # out))
             else
               (case field_end cs of
                  None \<Rightarrow> Inl ValueError
                | Some (fld, rest) \<Rightarrow>
                    (case field_kind fld of
                       Some e \<Rightarrow> Inl e
                     | None \<Rightarrow>
                         (case env fld of
                            None \<Rightarrow> Inl (KeyError fld)
                          | Some v \<Rightarrow>
                              (case py_format env rest of
                                 Inl e \<Rightarrow> Inl e
                               | Inr out \<Rightarrow> Inr (py_str v @ out))))))
      else if c = CHR ''}'' then
        (case cs of
           [] \<Rightarrow> Inl ValueError
         | d # ds \<Rightarrow>
             if d = CHR ''}'' then
               (case py_format env ds of Inl e \<Rightarrow> Inl e | Inr out \<Rightarrow> Inr (CHR ''}'' # out))
             else Inl ValueError)
      else (case py_format env cs of Inl e \<Rightarrow> Inl e | Inr out \<Rightarrow> Inr (c # out)))"
  by pat_completeness auto
termination
  by (relation "measure (\<lambda>(env, s). length s)") (auto dest: field_end_length)

text \<open>
  The placeholders a format string refers to, in order: the names of its replacement
  fields, or \<open>None\<close> when the string is not a well-formed format string of named fields.
  This is the notion of "placeholder referenced in the code body" the properties below
  are stated with; \<open>py_format\<close> itself never calls it.
\<close>

function fields :: "string \<Rightarrow> string list option" where
  "fields [] = Some []"
| "fields (c # cs) =
     (if c = CHR ''{'' then
        (case cs of
           [] \<Rightarrow> None
         | d # ds \<Rightarrow>
             if d = CHR ''{'' then fields ds
             else
               (case field_end cs of
                  None \<Rightarrow> None
                | Some (fld, rest) \<Rightarrow>
                    (case field_kind fld of
                       Some e \<Rightarrow> None
                     | None \<Rightarrow>
                         (case fields rest of None \<Rightarrow> None | Some fs \<Rightarrow> Some (fld # fs)))))
      else if c = CHR ''}'' then
        (case cs of
           [] \<Rightarrow> None
         | d # ds \<Rightarrow> if d = CHR ''}'' then fields ds else None)
      else fields cs)"
  by pat_completeness auto
termination
  by (relation "measure length") (auto dest: field_end_length)

text \<open>No \<^verbatim>\<open>{{\<close> and no \<^verbatim>\<open>}}\<close>: the format string has no escaped brace.\<close>

fun no_double_brace :: "string \<Rightarrow> bool" where
  "no_double_brace (a # b # cs) =
     (\<not> (a = b \<and> (a = CHR ''{'' \<or> a = CHR ''}'')) \<and> no_double_brace (b # cs))"
| "no_double_brace cs = True"

text \<open>\<open>occurs_in p s\<close>: the text \<open>p\<close> occurs somewhere in \<open>s\<close>.\<close>

fun occurs_in :: "string \<Rightarrow> string \<Rightarrow> bool" where
  "occurs_in p [] = (p = [])"
| "occurs_in p (c # cs) = (starts_with (c # cs) p \<or> occurs_in p cs)"

text \<open>
  The header and the body of the generated file, as \<^verbatim>\<open>main\<close> builds them:
  \<^verbatim>\<open>textwrap.dedent(t["code"]).format(**params).lstrip("\n")\<close> after the header.
\<close>

definition header_text :: "'s template \<Rightarrow> string \<Rightarrow> string" where
  \<open>header_text t date_str =
     ''"""\<newline>Title: '' @ title_of (name t) @
     ''\<newline>Date: '' @ date_str @
     ''\<newline>Description: '' @ desc t @
     ''\<newline>This file was auto-generated by scripts/generate_daily_code.py\<newline>"""\<newline>''\<close>

definition render_body :: "string \<Rightarrow> (string \<times> pyval) list \<Rightarrow> error + string" where
  "render_body body ps =
     (case py_format (map_of ps) (dedent body) of
        Inl e \<Rightarrow> Inl e
      | Inr out \<Rightarrow> Inr (dropWhile (\<lambda>c. c = CHR 0x0A) out))"

definition render :: "'s template \<Rightarrow> string \<Rightarrow> (string \<times> pyval) list \<Rightarrow> error + string" where
  "render t date_str ps =
     (case render_body (code t) ps of
        Inl e \<Rightarrow> Inl e
      | Inr body \<Rightarrow> Inr (header_text t date_str @ body))"

section \<open>The file system\<close>

text \<open>
  Paths are lists of components below \<^verbatim>\<open>ROOT\<close>, which is a directory and is the empty
  path. A file holds the bytes written to it (the script writes UTF-8). There are no
  symbolic links, and an operation fails only for the shape of the tree (a file where a
  directory is needed, a directory where a file is needed, a missing parent).
\<close>

type_synonym path = "string list"

datatype node = File string | Dir

type_synonym fs = "(path, node) fmap"

definition node_at :: "fs \<Rightarrow> path \<Rightarrow> node option" where
  "node_at fs p = (if p = [] then Some Dir else fmlookup fs p)"

definition path_exists :: "fs \<Rightarrow> path \<Rightarrow> bool" where
  "path_exists fs p = (node_at fs p \<noteq> None)"

text \<open>\<^verbatim>\<open>Path.mkdir(parents=True, exist_ok=True)\<close>.\<close>

function mkdir_parents :: "fs \<Rightarrow> path \<Rightarrow> error + fs" where
  "mkdir_parents fs p =
     (case node_at fs p of
        Some Dir \<Rightarrow> Inr fs
      | Some (File c) \<Rightarrow> Inl FileExistsError
      | None \<Rightarrow>
          (case node_at fs (butlast p) of
             Some Dir \<Rightarrow> Inr (fmupd p Dir fs)
           | Some (File c) \<Rightarrow> Inl NotADirectoryError
           | None \<Rightarrow>
               (case mkdir_parents fs (butlast p) of
                  Inl e \<Rightarrow> Inl e
                | Inr fs' \<Rightarrow> Inr (fmupd p Dir fs'))))"
  by pat_completeness auto
termination
  by (relation "measure (\<lambda>(fs, p). length p)") (auto simp: node_at_def split: if_splits)

declare mkdir_parents.simps [simp del]

text \<open>Creating a new entry needs its parent to be a directory.\<close>

definition create :: "fs \<Rightarrow> path \<Rightarrow> node \<Rightarrow> error + fs" where
  "create fs p n =
     (case node_at fs (butlast p) of
        Some Dir \<Rightarrow> Inr (fmupd p n fs)
      | Some (File c) \<Rightarrow> Inl NotADirectoryError
      | None \<Rightarrow> Inl FileNotFoundError)"

text \<open>\<^verbatim>\<open>Path.touch(exist_ok=True)\<close>: the content of an existing entry stays.\<close>

definition touch :: "fs \<Rightarrow> path \<Rightarrow> error + fs" where
  "touch fs p = (case node_at fs p of Some n \<Rightarrow> Inr fs | None \<Rightarrow> create fs p (File []))"

text \<open>\<^verbatim>\<open>Path.write_text\<close> opens with mode \<^verbatim>\<open>"w"\<close>: an existing file is replaced.\<close>

definition write_text :: "fs \<Rightarrow> path \<Rightarrow> string \<Rightarrow> error + fs" where
  "write_text fs p text =
     (case node_at fs p of
        Some Dir \<Rightarrow> Inl IsADirectoryError
      | Some (File c) \<Rightarrow> Inr (fmupd p (File text) fs)
      | None \<Rightarrow> create fs p (File text))"

text \<open>\<^verbatim>\<open>open("a")\<close> followed by one \<^verbatim>\<open>write\<close>.\<close>

definition append_text :: "fs \<Rightarrow> path \<Rightarrow> string \<Rightarrow> error + fs" where
  "append_text fs p text =
     (case node_at fs p of
        Some Dir \<Rightarrow> Inl IsADirectoryError
      | Some (File c) \<Rightarrow> Inr (fmupd p (File (c @ text)) fs)
      | None \<Rightarrow> create fs p (File text))"

section \<open>The output writer\<close>

definition OUT_DIR :: path where
  "OUT_DIR = [''daily_code'']"

definition index_path :: path where
  "index_path = OUT_DIR @ [''README.md'']"

definition index_header :: string where
  "index_header = ''# Daily Python Code\<newline>\<newline>Auto-generated snippets, one per day.\<newline>\<newline>''"

text \<open>
  A composite operation returns its result together with the file system it leaves, so
  that what an invocation did before it failed stays visible.
\<close>

definition ensure_index :: "fs \<Rightarrow> (error + unit) \<times> fs" where
  "ensure_index fs =
     (case mkdir_parents fs OUT_DIR of
        Inl e \<Rightarrow> (Inl e, fs)
      | Inr fs1 \<Rightarrow>
          (case touch fs1 (OUT_DIR @ [''.gitkeep'']) of
             Inl e \<Rightarrow> (Inl e, fs1)
           | Inr fs2 \<Rightarrow>
               if \<not> path_exists fs2 index_path then
                 (case write_text fs2 index_path index_header of
                    Inl e \<Rightarrow> (Inl e, fs2)
                  | Inr fs3 \<Rightarrow> (Inr (), fs3))
               else (Inr (), fs2)))"

text \<open>
  The line \<^verbatim>\<open>update_index\<close> appends. Between the link and the description the source
  file holds the three characters U+00E2, U+20AC, U+201D; written with
  \<^verbatim>\<open>encoding="utf-8"\<close> they are the eight bytes of \<open>written_separator\<close>. An em dash
  (U+2014) is the three bytes of \<open>em_dash\<close>.
\<close>

definition written_separator :: string where
  "written_separator = [CHR 0xC3, CHR 0xA2, CHR 0xE2, CHR 0x82, CHR 0xAC, CHR 0xE2, CHR 0x80, CHR 0x9D]"

definition em_dash :: string where
  "em_dash = [CHR 0xE2, CHR 0x80, CHR 0x94]"

definition as_posix :: "path \<Rightarrow> string" where
  "as_posix p = join_with ''/'' p"

definition index_line :: "path \<Rightarrow> string \<Rightarrow> string \<Rightarrow> datetime \<Rightarrow> string" where
  "index_line rel_path title dsc now =
     ''- '' @ strftime_stamp now @ '': ['' @ title @ '']('' @ as_posix rel_path @ '') '' @
     written_separator @ '' '' @ dsc @ ''\<newline>''"

definition update_index :: "fs \<Rightarrow> path \<Rightarrow> string \<Rightarrow> string \<Rightarrow> datetime \<Rightarrow> (error + unit) \<times> fs" where
  "update_index fs rel_path title dsc now =
     (case append_text fs index_path (index_line rel_path title dsc now) of
        Inl e \<Rightarrow> (Inl e, fs)
      | Inr fs' \<Rightarrow> (Inr (), fs'))"

text \<open>
  The search for a free path:
  \<^verbatim>\<open>
  counter = 2
  while out_path.exists():
      out_path = year_dir / f"{date_str}_{slugify(t['name'])}_v{counter}.py"
      counter += 1
  \<close>
\<close>

definition versioned_name :: "string \<Rightarrow> string \<Rightarrow> nat \<Rightarrow> string" where
  "versioned_name date_str slug counter = date_str @ ''_'' @ slug @ ''_v'' @ str_nat counter @ ''.py''"

text \<open>
  The loop ends because the file system is finite and \<^verbatim>\<open>str\<close> is injective on the
  counters: the versioned names that exist from the counter on become fewer.
\<close>

lemma digit_value_digit_char: "d < 10 \<Longrightarrow> digit_value (digit_char d) = Some d"
proof -
  assume "d < 10"
  then have "d \<in> {0, 1, 2, 3, 4, 5, 6, 7, 8, 9}" by auto
  then show ?thesis
    by (auto simp: digit_value_def digit_char_def)
qed

lemma int_of_digits_append:
  "int_of_digits acc (xs @ ys) =
     (case int_of_digits acc xs of Inl e \<Rightarrow> Inl e | Inr a \<Rightarrow> int_of_digits a ys)"
  by (induction xs arbitrary: acc) (auto split: option.splits)

lemma int_of_digits_str_nat:
  "int_of_digits acc (str_nat n) = Inr (acc * 10 ^ length (str_nat n) + n)"
proof (induction n arbitrary: acc rule: str_nat.induct)
  case (1 n)
  show ?case
  proof (cases "n < 10")
    case True
    then show ?thesis
      by (simp add: str_nat.simps [of n] digit_value_digit_char)
  next
    case False
    have "int_of_digits acc (str_nat n)
        = int_of_digits acc (str_nat (n div 10) @ [digit_char (n mod 10)])"
      using False by (subst str_nat.simps) simp
    also have "\<dots> = Inr (10 * (acc * 10 ^ length (str_nat (n div 10)) + n div 10) + n mod 10)"
      using False by (simp add: int_of_digits_append "1.IH" digit_value_digit_char)
    also have "length (str_nat n) = Suc (length (str_nat (n div 10)))"
      using False by (subst str_nat.simps) simp
    ultimately show ?thesis
      by (simp add: algebra_simps)
  qed
qed

lemma str_nat_inj: "str_nat m = str_nat n \<longleftrightarrow> m = n"
proof
  assume "str_nat m = str_nat n"
  then have "int_of_digits 0 (str_nat m) = int_of_digits 0 (str_nat n)"
    by (rule arg_cong)
  then show "m = n"
    by (simp only: int_of_digits_str_nat) simp
qed simp

lemma versioned_name_inj:
  "versioned_name d sl j = versioned_name d sl k \<longleftrightarrow> j = k"
  by (simp add: versioned_name_def str_nat_inj)

lemma finite_versions:
  "finite {k. path_exists fs (yd @ [versioned_name d sl k])}"
proof -
  let ?f = "\<lambda>k. yd @ [versioned_name d sl k]"
  have inj: "inj ?f"
    by (simp add: inj_on_def versioned_name_inj)
  have "k \<in> ?f -` fmdom' fs" if "path_exists fs (?f k)" for k
  proof -
    from that obtain n where "fmlookup fs (?f k) = Some n"
      by (auto simp: path_exists_def node_at_def)
    then show ?thesis
      by (simp add: fmdom'I)
  qed
  then have "{k. path_exists fs (?f k)} \<subseteq> ?f -` fmdom' fs"
    by blast
  moreover have "finite (?f -` fmdom' fs)"
    using inj by (intro finite_vimageI) auto
  ultimately show ?thesis
    by (rule finite_subset)
qed

lemma versions_step:
  "card {k. Suc c \<le> k \<and> path_exists fs (yd @ [versioned_name d sl k])}
     + (if path_exists fs (yd @ [versioned_name d sl c]) then 1 else 0)
   = card {k. c \<le> k \<and> path_exists fs (yd @ [versioned_name d sl k])}"
proof -
  let ?E = "\<lambda>k. path_exists fs (yd @ [versioned_name d sl k])"
  have fin: "finite {k. Suc c \<le> k \<and> ?E k}"
    by (rule finite_subset [OF _ finite_versions [of fs yd d sl]]) auto
  show ?thesis
  proof (cases "?E c")
    case True
    then have "{k. c \<le> k \<and> ?E k} = insert c {k. Suc c \<le> k \<and> ?E k}"
      by (auto simp: Suc_le_eq le_less)
    then show ?thesis
      using True fin by simp
  next
    case False
    then have "{k. c \<le> k \<and> ?E k} = {k. Suc c \<le> k \<and> ?E k}"
      by (auto simp: Suc_le_eq le_less)
    then show ?thesis
      using False by simp
  qed
qed

function find_free :: "fs \<Rightarrow> path \<Rightarrow> string \<Rightarrow> string \<Rightarrow> path \<Rightarrow> nat \<Rightarrow> path" where
  "find_free fs year_dir date_str slug out_path counter =
     (if path_exists fs out_path
      then find_free fs year_dir date_str slug
             (year_dir @ [versioned_name date_str slug counter]) (counter + 1)
      else out_path)"
  by pat_completeness auto
termination
proof (relation "measure (\<lambda>(fs, yd, d, sl, p, c).
    card {k. c \<le> k \<and> path_exists fs (yd @ [versioned_name d sl k])}
      + (if path_exists fs p then 1 else 0))", goal_cases)
  case 1
  show ?case by simp
next
  case (2 fs year_dir date_str slug out_path counter)
  then show ?case
    using versions_step [of counter fs year_dir date_str slug] by simp
qed

declare find_free.simps [simp del]

text \<open>
  \<^verbatim>\<open>main\<close> from \<^verbatim>\<open>date_str = ...\<close> to its end, for the template and the
  parameters chosen before. The path written (relative to \<^verbatim>\<open>ROOT\<close>) is the result: it is
  what \<^verbatim>\<open>main\<close> prints.
\<close>

definition main_write ::
  "'s template \<Rightarrow> (string \<times> pyval) list \<Rightarrow> clock \<Rightarrow> fs \<Rightarrow> (error + path) \<times> fs" where
  "main_write t ps clk fs =
     (let date_str = strftime_date (at_date clk);
          year_dir = OUT_DIR @ [strftime_year (at_year clk)]
      in case mkdir_parents fs year_dir of
           Inl e \<Rightarrow> (Inl e, fs)
         | Inr fs1 \<Rightarrow>
             (let base_name = date_str @ ''_'' @ slugify (name t) @ ''.py'';
                  out_path = find_free fs1 year_dir date_str (slugify (name t))
                               (year_dir @ [base_name]) 2
              in case render t date_str ps of
                   Inl e \<Rightarrow> (Inl e, fs1)
                 | Inr text \<Rightarrow>
                     (case write_text fs1 out_path text of
                        Inl e \<Rightarrow> (Inl e, fs1)
                      | Inr fs2 \<Rightarrow>
                          (case update_index fs2 out_path (name t) (desc t) (at_index clk) of
                             (Inl e, fs3) \<Rightarrow> (Inl e, fs3)
                           | (Inr u, fs3) \<Rightarrow> (Inr out_path, fs3)))))"

text \<open>
  \<^verbatim>\<open>t = pick_template(rng); params = t["params"](rng)\<close>: the template and the
  parameters, both drawn from the one generator.
\<close>

definition draw_selection ::
  "'s randbelow \<Rightarrow> 's \<Rightarrow> error + 's template \<times> (string \<times> pyval) list" where
  "draw_selection rb rng =
     (case pick_template rb rng of
        Inl e \<Rightarrow> Inl e
      | Inr (t, rng1) \<Rightarrow>
          (case params t rb rng1 of
             Inl e \<Rightarrow> Inl e
           | Inr (ps, rng2) \<Rightarrow> Inr (t, ps)))"

definition main :: "(int \<Rightarrow> 's) \<Rightarrow> 's randbelow \<Rightarrow> clock \<Rightarrow> fs \<Rightarrow> (error + path) \<times> fs" where
  "main seed_rng rb clk fs =
     (case today_seed (at_seed clk) of
        Inl e \<Rightarrow> (Inl e, fs)
      | Inr sd \<Rightarrow>
          (case ensure_index fs of
             (Inl e, fs1) \<Rightarrow> (Inl e, fs1)
           | (Inr u, fs1) \<Rightarrow>
               (case draw_selection rb (seed_rng sd) of
                  Inl e \<Rightarrow> (Inl e, fs1)
                | Inr (t, ps) \<Rightarrow> main_write t ps clk fs1)))"

text \<open>The selector on its own: what an invocation at the clock reading \<open>now\<close> selects.\<close>

definition selection ::
  "(int \<Rightarrow> 's) \<Rightarrow> 's randbelow \<Rightarrow> datetime \<Rightarrow> error + 's template \<times> (string \<times> pyval) list" where
  "selection seed_rng rb now =
     (case today_seed now of
        Inl e \<Rightarrow> Inl e
      | Inr sd \<Rightarrow> draw_selection rb (seed_rng sd))"

section \<open>The code of the \<^verbatim>\<open>fibonacci_iterative\<close> template\<close>

text \<open>
  \<^verbatim>\<open>
  def fibonacci(n: int) -> list[int]:
      if n <= 0:
          return []
      if n == 1:
          return [0]
      seq = [0, 1]
      for _ in range(2, n):
          seq.append(seq[-1] + seq[-2])
      return seq
  \<close>
  The loop body runs \<open>n - 2\<close> times; \<^verbatim>\<open>seq[-1]\<close> and \<^verbatim>\<open>seq[-2]\<close> raise
  \<^verbatim>\<open>IndexError\<close> on a list with fewer than two elements.
\<close>

fun fib_loop :: "nat \<Rightarrow> int list \<Rightarrow> error + int list" where
  "fib_loop 0 seq = Inr seq"
| "fib_loop (Suc k) seq =
     (if length seq < 2 then Inl IndexError
      else fib_loop k (seq @ [seq ! (length seq - 1) + seq ! (length seq - 2)]))"

definition fibonacci :: "int \<Rightarrow> error + int list" where
  "fibonacci n =
     (if n \<le> 0 then Inr []
      else if n = 1 then Inr [0]
      else fib_loop (nat (n - 2)) [0, 1])"

text \<open>The Fibonacci numbers as the mathematical sequence \<open>F 0 = 0\<close>, \<open>F 1 = 1\<close>.\<close>

fun fib_ref :: "nat \<Rightarrow> int" where
  "fib_ref 0 = 0"
| "fib_ref (Suc 0) = 1"
| "fib_ref (Suc (Suc n)) = fib_ref (Suc n) + fib_ref n"

definition first_fibs :: "nat \<Rightarrow> int list" where
  "first_fibs n = map fib_ref [0..<n]"

section \<open>The code of the \<^verbatim>\<open>dijkstra_on_grid\<close> template\<close>

text \<open>
  Indexing a Python list, \<^verbatim>\<open>xs[i]\<close> and \<^verbatim>\<open>xs[i] = v\<close>: a negative index counts from
  the end, and an index outside \<^verbatim>\<open>-len(xs) <= i < len(xs)\<close> raises \<^verbatim>\<open>IndexError\<close>.
\<close>

definition py_index :: "'a list \<Rightarrow> int \<Rightarrow> error + 'a" where
  "py_index xs i =
     (if 0 \<le> i \<and> i < int (length xs) then Inr (xs ! nat i)
      else if i < 0 \<and> - int (length xs) \<le> i then Inr (xs ! nat (int (length xs) + i))
      else Inl IndexError)"

definition py_store :: "'a list \<Rightarrow> int \<Rightarrow> 'a \<Rightarrow> error + 'a list" where
  "py_store xs i v =
     (if 0 \<le> i \<and> i < int (length xs) then Inr (xs[nat i := v])
      else if i < 0 \<and> - int (length xs) \<le> i then Inr (xs[nat (int (length xs) + i) := v])
      else Inl IndexError)"

text \<open>\<^verbatim>\<open>m[r][c]\<close> and \<^verbatim>\<open>m[r][c] = v\<close> on a list of lists.\<close>

definition py_index2 :: "'a list list \<Rightarrow> int \<Rightarrow> int \<Rightarrow> error + 'a" where
  "py_index2 m r c = (case py_index m r of Inl e \<Rightarrow> Inl e | Inr row \<Rightarrow> py_index row c)"

definition py_store2 :: "'a list list \<Rightarrow> int \<Rightarrow> int \<Rightarrow> 'a \<Rightarrow> error + 'a list list" where
  "py_store2 m r c v =
     (case py_index m r of
        Inl e \<Rightarrow> Inl e
      | Inr row \<Rightarrow>
          (case py_store row c v of
             Inl e \<Rightarrow> Inl e
           | Inr row' \<Rightarrow> py_store m r row'))"

text \<open>
  \<^verbatim>\<open>
  def neighbors(r: int, c: int, R: int, C: int):
      for dr, dc in ((1,0),(-1,0),(0,1),(0,-1)):
          nr, nc = r+dr, c+dc
          if 0 <= nr < R and 0 <= nc < C:
              yield nr, nc
  \<close>
\<close>

definition neighbors :: "int \<Rightarrow> int \<Rightarrow> int \<Rightarrow> int \<Rightarrow> (int \<times> int) list" where
  "neighbors r c R C =
     filter (\<lambda>(nr, nc). 0 \<le> nr \<and> nr < R \<and> 0 \<le> nc \<and> nc < C)
       (map (\<lambda>(dr, dc). (r + dr, c + dc)) [(1, 0), (- 1, 0), (0, 1), (0, - 1)])"

text \<open>
  The priority queue holds tuples \<^verbatim>\<open>(d, r, c)\<close>, which Python compares
  lexicographically. \<^verbatim>\<open>heapq.heappop\<close> returns the smallest tuple of the heap (an
  \<^verbatim>\<open>IndexError\<close> on an empty one), whatever the order in which the tuples were pushed, so
  the heap is a list here, \<^verbatim>\<open>heappush\<close> adds to it and \<^verbatim>\<open>heappop\<close> takes a smallest
  element out.
\<close>

type_synonym entry = "int \<times> int \<times> int"

definition entry_less :: "entry \<Rightarrow> entry \<Rightarrow> bool" where
  "entry_less a b =
     (case a of (d1, r1, c1) \<Rightarrow> case b of (d2, r2, c2) \<Rightarrow>
        d1 < d2 \<or> (d1 = d2 \<and> (r1 < r2 \<or> (r1 = r2 \<and> c1 < c2))))"

fun smallest :: "entry \<Rightarrow> entry list \<Rightarrow> entry" where
  "smallest m [] = m"
| "smallest m (x # xs) = smallest (if entry_less x m then x else m) xs"

definition heappush :: "entry list \<Rightarrow> entry \<Rightarrow> entry list" where
  "heappush pq e = pq @ [e]"

definition heappop :: "entry list \<Rightarrow> error + entry \<times> entry list" where
  "heappop pq =
     (case pq of
        [] \<Rightarrow> Inl IndexError
      | x # xs \<Rightarrow> (let m = smallest x xs in Inr (m, remove1 m pq)))"

text \<open>
  \<^verbatim>\<open>
  def dijkstra(grid: List[List[int]], start=(0,0), goal=None) -> int:
      R, C = len(grid), len(grid[0])
      if goal is None: goal = (R-1, C-1)
      dist = [[float('inf')]*C for _ in range(R)]
      sr, sc = start
      dist[sr][sc] = grid[sr][sc]
      pq: List[Tuple[int,int,int]] = [(grid[sr][sc], sr, sc)]
      while pq:
          d, r, c = heapq.heappop(pq)
          if (r,c) == goal:
              return d
          if d != dist[r][c]:
              continue
          for nr, nc in neighbors(r,c,R,C):
              nd = d + grid[nr][nc]
              if nd < dist[nr][nc]:
                  dist[nr][nc] = nd
                  heapq.heappush(pq, (nd, nr, nc))
      return -1
  \<close>
  An entry of \<^verbatim>\<open>dist\<close> is \<open>None\<close> for \<^verbatim>\<open>float('inf')\<close>, which every integer is less than
  and different from. \<open>relax\<close> is the \<^verbatim>\<open>for\<close> loop; the \<^verbatim>\<open>while\<close> loop takes the number
  of iterations it may still make, and \<open>None\<close> says that these were not enough.
\<close>

fun relax ::
  "int list list \<Rightarrow> int \<Rightarrow> (int \<times> int) list \<Rightarrow> int option list list \<Rightarrow> entry list \<Rightarrow>
     error + int option list list \<times> entry list" where
  "relax grid d [] dist pq = Inr (dist, pq)"
| "relax grid d ((nr, nc) # rest) dist pq =
     (case py_index2 grid nr nc of
        Inl e \<Rightarrow> Inl e
      | Inr w \<Rightarrow>
          (case py_index2 dist nr nc of
             Inl e \<Rightarrow> Inl e
           | Inr old \<Rightarrow>
               if (case old of None \<Rightarrow> True | Some x \<Rightarrow> d + w < x) then
                 (case py_store2 dist nr nc (Some (d + w)) of
                    Inl e \<Rightarrow> Inl e
                  | Inr dist' \<Rightarrow> relax grid d rest dist' (heappush pq (d + w, nr, nc)))
               else relax grid d rest dist pq))"

fun dijkstra_loop ::
  "nat \<Rightarrow> int list list \<Rightarrow> int \<Rightarrow> int \<Rightarrow> int \<times> int \<Rightarrow> int option list list \<Rightarrow> entry list \<Rightarrow>
     (error + int) option" where
  "dijkstra_loop 0 grid R C goal dist pq = None"
| "dijkstra_loop (Suc fuel) grid R C goal dist pq =
     (if pq = [] then Some (Inr (- 1))
      else
        (case heappop pq of
           Inl e \<Rightarrow> Some (Inl e)
         | Inr ((d, r, c), pq1) \<Rightarrow>
             if (r, c) = goal then Some (Inr d)
             else
               (case py_index2 dist r c of
                  Inl e \<Rightarrow> Some (Inl e)
                | Inr cur \<Rightarrow>
                    if cur \<noteq> Some d then dijkstra_loop fuel grid R C goal dist pq1
                    else
                      (case relax grid d (neighbors r c R C) dist pq1 of
                         Inl e \<Rightarrow> Some (Inl e)
                       | Inr (dist', pq2) \<Rightarrow> dijkstra_loop fuel grid R C goal dist' pq2))))"

definition dijkstra :: "nat \<Rightarrow> int list list \<Rightarrow> (error + int) option" where
  "dijkstra fuel grid =
     (case py_index grid 0 of
        Inl e \<Rightarrow> Some (Inl e)
      | Inr row0 \<Rightarrow>
          (let R = int (length grid); C = int (length row0);
               dist = replicate (nat R) (replicate (nat C) None)
           in case py_index2 grid 0 0 of
                Inl e \<Rightarrow> Some (Inl e)
              | Inr g \<Rightarrow>
                  (case py_store2 dist 0 0 (Some g) of
                     Inl e \<Rightarrow> Some (Inl e)
                   | Inr dist0 \<Rightarrow>
                       dijkstra_loop fuel grid R C (R - 1, C - 1) dist0 [(g, 0, 0)])))"

section \<open>A concrete clock and generator for running the program\<close>

text \<open>
  To run the embedding on examples: a clock that shows the same reading at every call,
  and a generator whose state is the list of numbers it will still return (each reduced
  modulo the bound asked for, so that it is in range; zero when the list is used up).
\<close>

definition fixed_clock :: "datetime \<Rightarrow> clock" where
  "fixed_clock d = \<lparr>at_seed = d, at_date = d, at_year = d, at_index = d\<rparr>"

definition replay_randbelow :: "nat list randbelow" where
  "replay_randbelow s n = (case s of [] \<Rightarrow> (0, []) | x # xs \<Rightarrow> (x mod n, xs))"

definition morning :: datetime where
  "morning = \<lparr>year = 2024, month = 1, day = 1, hour = 6, minute = 30\<rparr>"

definition evening :: datetime where
  "evening = \<lparr>year = 2024, month = 1, day = 1, hour = 23, minute = 59\<rparr>"

text \<open>The placeholders of a code body: the fields of the text that is formatted.\<close>

definition placeholders :: "string \<Rightarrow> string list" where
  "placeholders body = (case fields (dedent body) of None \<Rightarrow> [] | Some fs \<Rightarrow> fs)"

text \<open>
  The scenario of the specification: the date 2024-01-01, and a generator whose first
  draws select the first template (\<^verbatim>\<open>fibonacci_iterative\<close>) and \<^verbatim>\<open>N = 12\<close>.
\<close>

definition example_seed :: "int \<Rightarrow> nat list" where
  "example_seed sd = [0, 4]"

definition example_path :: path where
  "example_path = [''daily_code'', ''2024'', ''2024-01-01_fibonacci_iterative.py'']"

definition example_path_v2 :: path where
  "example_path_v2 = [''daily_code'', ''2024'', ''2024-01-01_fibonacci_iterative_v2.py'']"

definition example_line :: "datetime \<Rightarrow> path \<Rightarrow> string" where
  "example_line now p =
     index_line p ''fibonacci_iterative'' ''Compute the first N Fibonacci numbers iteratively.'' now"

text \<open>
  Two invocations on that date, the first in the morning on an empty repository, the
  second in the evening on what the first one left.
\<close>

definition first_run :: "(error + path) \<times> fs" where
  "first_run = main example_seed replay_randbelow (fixed_clock morning) fmempty"

definition second_run :: "(error + path) \<times> fs" where
  "second_run = main example_seed replay_randbelow (fixed_clock evening) (snd first_run)"

text \<open>
  The two kinds of path \<^verbatim>\<open>main\<close> tries for the template \<open>t\<close>:
  \<^verbatim>\<open>year_dir / base_name\<close> and \<^verbatim>\<open>year_dir / f"{date_str}_{slugify(t['name'])}_v{counter}.py"\<close>.
\<close>

definition base_path :: "clock \<Rightarrow> 's template \<Rightarrow> path" where
  "base_path clk t =
     OUT_DIR @ [strftime_year (at_year clk),
                strftime_date (at_date clk) @ ''_'' @ slugify (name t) @ ''.py'']"

definition versioned_path :: "clock \<Rightarrow> 's template \<Rightarrow> nat \<Rightarrow> path" where
  "versioned_path clk t counter =
     OUT_DIR @ [strftime_year (at_year clk),
                versioned_name (strftime_date (at_date clk)) (slugify (name t)) counter]"

text \<open>
  The draws of the invocation on 2025-07-12: Python's generator seeded with 20250712
  returns these numbers from \<^verbatim>\<open>_randbelow\<close>, which select the fifth template and give it
  the grid below.
\<close>

definition draws_20250712 :: "nat list" where
  "draws_20250712 =
     [4, 0, 1, 5, 1, 1, 1, 8, 0, 6, 8, 7, 3, 0, 2, 3, 5, 2, 2, 5, 2, 2, 6, 4, 1]"

definition grid_20250712 :: "int list list" where
  "grid_20250712 = [[6, 2, 2, 2, 9], [7, 9, 8, 4], [3, 4, 6, 3], [6, 3, 3, 7, 5, 2]]"

section \<open>Properties of the fibonacci template\<close>

lemma first_fibs_Suc: "first_fibs (Suc m) = first_fibs m @ [fib_ref m]"
  by (simp add: first_fibs_def)

lemma length_first_fibs [simp]: "length (first_fibs m) = m"
  by (simp add: first_fibs_def)

lemma first_fibs_nth: "i < m \<Longrightarrow> first_fibs m ! i = fib_ref i"
  by (simp add: first_fibs_def)

lemma fib_loop_first_fibs:
  "2 \<le> m \<Longrightarrow> fib_loop k (first_fibs m) = Inr (first_fibs (m + k))"
proof (induction k arbitrary: m)
  case 0
  then show ?case by simp
next
  case (Suc k)
  from Suc.prems obtain j where m: "m = Suc (Suc j)"
    by (metis Suc_le_D numeral_2_eq_2 Suc_le_mono)
  have a: "first_fibs m ! (m - 1) = fib_ref (Suc j)"
    using first_fibs_nth [of "m - 1" m] by (simp add: m)
  have b: "first_fibs m ! (m - 2) = fib_ref j"
    using first_fibs_nth [of "m - 2" m] by (simp add: m)
  have "fib_ref m = fib_ref (Suc j) + fib_ref j"
    by (simp add: m)
  then have step: "first_fibs m @ [first_fibs m ! (m - 1) + first_fibs m ! (m - 2)]
      = first_fibs (Suc m)"
    by (simp only: a b first_fibs_Suc [of m])
  have "fib_loop (Suc k) (first_fibs m) = fib_loop k (first_fibs (Suc m))"
    using Suc.prems step by simp
  also have "\<dots> = Inr (first_fibs (Suc m + k))"
    using Suc.prems by (intro Suc.IH) simp
  finally show ?case by simp
qed

lemma first_fibs_2: "first_fibs 2 = [0, 1]"
  by (simp add: first_fibs_def numeral_2_eq_2)

text \<open>
  Claim C6. The \<^verbatim>\<open>fibonacci\<close> function of the \<^verbatim>\<open>fibonacci_iterative\<close> template
  returns the first \<open>n\<close> Fibonacci numbers for every \<open>n\<close> (the empty list for
  \<open>n \<le> 0\<close>, \<open>[0]\<close> for \<open>n = 1\<close>), and for \<open>N = 12\<close> exactly
  \<open>[0, 1, 1, 2, 3, 5, 8, 13, 21, 34, 55, 89]\<close>.
\<close>

theorem fibonacci_first_n:
  "fibonacci n = Inr (first_fibs (nat n))
   \<and> fibonacci (- int k) = Inr []
   \<and> fibonacci 1 = Inr [0]
   \<and> fibonacci 12 = Inr [0, 1, 1, 2, 3, 5, 8, 13, 21, 34, 55, 89]"
proof -
  have gen: "fibonacci i = Inr (first_fibs (nat i))" for i
  proof -
    consider "i \<le> 0" | "i = 1" | "2 \<le> i" by linarith
    then show ?thesis
    proof cases
      case 1
      then show ?thesis by (simp add: fibonacci_def first_fibs_def)
    next
      case 2
      then show ?thesis by (simp add: fibonacci_def first_fibs_def)
    next
      case 3
      then have "fibonacci i = fib_loop (nat (i - 2)) (first_fibs 2)"
        by (simp add: fibonacci_def first_fibs_2)
      also have "\<dots> = Inr (first_fibs (2 + nat (i - 2)))"
        by (rule fib_loop_first_fibs) simp
      also have "2 + nat (i - 2) = nat i"
        using 3 by simp
      finally show ?thesis .
    qed
  qed
  have twelve: "first_fibs 12 = [0, 1, 1, 2, 3, 5, 8, 13, 21, 34, 55, 89]"
    by code_simp
  have "fibonacci 12 = Inr (first_fibs 12)"
    using gen [of 12] by simp
  then show ?thesis
    using gen [of n] twelve by (simp add: fibonacci_def)
qed

section \<open>Properties of the file system and of the scaffolding\<close>

lemma node_at_fmupd:
  "p \<noteq> [] \<Longrightarrow> node_at (fmupd p n fs) q = (if q = p then Some n else node_at fs q)"
  by (simp add: node_at_def)

lemma create_Inr:
  "create fs p n = Inr fs' \<Longrightarrow> fs' = fmupd p n fs \<and> node_at fs (butlast p) = Some Dir"
  by (auto simp: create_def split: option.splits node.splits)

lemma create_ok:
  "node_at fs (butlast p) = Some Dir \<Longrightarrow> create fs p n = Inr (fmupd p n fs)"
  by (simp add: create_def)

lemma mkdir_parents_effect:
  "mkdir_parents fs p = Inr fs' \<Longrightarrow>
     node_at fs' p = Some Dir \<and>
     (node_at fs' q = node_at fs q \<or> (node_at fs q = None \<and> node_at fs' q = Some Dir))"
proof (induction fs p arbitrary: fs' rule: mkdir_parents.induct)
  case (1 fs p)
  show ?case
  proof (cases "node_at fs p")
    case (Some n)
    with "1.prems" show ?thesis
      by (cases n) (simp_all add: mkdir_parents.simps [of fs p])
  next
    case None
    then have p: "p \<noteq> []" by (auto simp: node_at_def)
    show ?thesis
    proof (cases "node_at fs (butlast p)")
      case (Some n)
      with None "1.prems" p show ?thesis
        by (cases n) (auto simp: mkdir_parents.simps [of fs p] node_at_fmupd split: if_splits)
    next
      case up: None
      with None "1.prems" obtain fs1 where
        rec: "mkdir_parents fs (butlast p) = Inr fs1" and fs': "fs' = fmupd p Dir fs1"
        by (auto simp: mkdir_parents.simps [of fs p] split: sum.splits)
      from "1.IH" [OF None up rec]
      have "node_at fs1 q = node_at fs q \<or> (node_at fs q = None \<and> node_at fs1 q = Some Dir)"
        by simp
      with None p fs' show ?thesis
        by (auto simp: node_at_fmupd split: if_splits)
    qed
  qed
qed

lemma mkdir_parents_keeps:
  "mkdir_parents fs p = Inr fs' \<Longrightarrow> node_at fs q = Some n \<Longrightarrow> node_at fs' q = Some n"
  using mkdir_parents_effect [of fs p fs' q] by auto

lemma mkdir_parents_dir:
  "node_at fs p = Some Dir \<Longrightarrow> mkdir_parents fs p = Inr fs"
  by (simp add: mkdir_parents.simps [of fs p])

lemma mkdir_parents_Inl:
  "mkdir_parents fs p = Inl e \<Longrightarrow> e = FileExistsError \<or> e = NotADirectoryError"
proof (induction fs p rule: mkdir_parents.induct)
  case (1 fs p)
  then show ?case
    by (auto simp: mkdir_parents.simps [of fs p] split: option.splits node.splits sum.splits)
qed


lemma mkdir_parents_changes:
  "mkdir_parents fs p = Inr fs' \<Longrightarrow> node_at fs' q \<noteq> node_at fs q \<Longrightarrow>
     length q \<le> length p \<and> take (length q) p = q"
proof (induction fs p arbitrary: fs' rule: mkdir_parents.induct)
  case (1 fs p)
  show ?case
  proof (cases "node_at fs p")
    case (Some n)
    with "1.prems" show ?thesis
      by (cases n) (simp_all add: mkdir_parents.simps [of fs p])
  next
    case None
    then have p: "p \<noteq> []" by (auto simp: node_at_def)
    show ?thesis
    proof (cases "node_at fs (butlast p)")
      case (Some n)
      with None "1.prems" p show ?thesis
        by (cases n) (auto simp: mkdir_parents.simps [of fs p] node_at_fmupd split: if_splits)
    next
      case up: None
      with None "1.prems" obtain fs1 where
        rec: "mkdir_parents fs (butlast p) = Inr fs1" and fs': "fs' = fmupd p Dir fs1"
        by (auto simp: mkdir_parents.simps [of fs p] split: sum.splits)
      show ?thesis
      proof (cases "q = p")
        case True
        then show ?thesis by simp
      next
        case False
        with fs' p "1.prems" have "node_at fs1 q \<noteq> node_at fs q"
          by (simp add: node_at_fmupd)
        from "1.IH" [OF None up rec this]
        have le: "length q \<le> length (butlast p)" and tk: "take (length q) (butlast p) = q"
          by simp_all
        from le p have lt: "length q < length p"
          by (simp add: less_eq_Suc_le [symmetric] Suc_pred flip: length_greater_0_conv)
        with tk show ?thesis
          by (simp add: take_butlast)
      qed
    qed
  qed
qed

lemma touch_effect:
  "touch fs p = Inr fs' \<Longrightarrow>
     path_exists fs' p \<and> (q \<noteq> p \<longrightarrow> node_at fs' q = node_at fs q) \<and>
     (node_at fs q = Some n \<longrightarrow> node_at fs' q = Some n)"
proof (cases "node_at fs p")
  case None
  assume t: "touch fs p = Inr fs'"
  from None have p: "p \<noteq> []" by (auto simp: node_at_def)
  from t None have "fs' = fmupd p (File []) fs"
    by (auto simp: touch_def dest: create_Inr)
  with None p show ?thesis
    by (auto simp: node_at_fmupd path_exists_def)
next
  case (Some m)
  assume "touch fs p = Inr fs'"
  with Some show ?thesis
    by (auto simp: touch_def path_exists_def)
qed

lemma write_text_effect:
  "write_text fs p t = Inr fs' \<Longrightarrow>
     p \<noteq> [] \<and> node_at fs' p = Some (File t) \<and> (q \<noteq> p \<longrightarrow> node_at fs' q = node_at fs q)"
proof -
  assume w: "write_text fs p t = Inr fs'"
  then have p: "p \<noteq> []"
    by (auto simp: write_text_def node_at_def)
  from w have "fs' = fmupd p (File t) fs"
    by (auto simp: write_text_def split: option.splits node.splits dest: create_Inr)
  with p show ?thesis
    by (simp add: node_at_fmupd)
qed

lemma append_text_effect:
  "append_text fs p t = Inr fs' \<Longrightarrow>
     p \<noteq> [] \<and>
     node_at fs' p = Some (File ((case node_at fs p of Some (File c) \<Rightarrow> c | _ \<Rightarrow> []) @ t)) \<and>
     (q \<noteq> p \<longrightarrow> node_at fs' q = node_at fs q)"
proof -
  assume w: "append_text fs p t = Inr fs'"
  then have p: "p \<noteq> []"
    by (auto simp: append_text_def node_at_def)
  from w have "fs' = fmupd p (File ((case node_at fs p of Some (File c) \<Rightarrow> c | _ \<Rightarrow> []) @ t)) fs"
    by (auto simp: append_text_def split: option.splits node.splits dest: create_Inr)
  with p show ?thesis
    by (simp add: node_at_fmupd)
qed

lemma ensure_index_keeps:
  "ensure_index fs = (r, fs') \<Longrightarrow> node_at fs q = Some n \<Longrightarrow> node_at fs' q = Some n"
proof -
  assume e: "ensure_index fs = (r, fs')" and q: "node_at fs q = Some n"
  show ?thesis
  proof (cases "mkdir_parents fs OUT_DIR")
    case (Inl x)
    with e q show ?thesis by (simp add: ensure_index_def)
  next
    case (Inr fs1)
    note q1 = mkdir_parents_keeps [OF Inr q]
    show ?thesis
    proof (cases "touch fs1 (OUT_DIR @ [''.gitkeep''])")
      case (Inl x)
      with e Inr q1 show ?thesis by (simp add: ensure_index_def)
    next
      case fs2: (Inr fs2)
      from touch_effect [OF fs2, of q n] q1 have q2: "node_at fs2 q = Some n" by simp
      show ?thesis
      proof (cases "path_exists fs2 index_path")
        case True
        with e Inr fs2 q2 show ?thesis by (simp add: ensure_index_def)
      next
        case False
        with q2 have ne: "q \<noteq> index_path" by (auto simp: path_exists_def)
        show ?thesis
        proof (cases "write_text fs2 index_path index_header")
          case (Inl x)
          with e Inr fs2 False q2 show ?thesis by (simp add: ensure_index_def)
        next
          case fs3: (Inr fs3)
          from write_text_effect [OF fs3, of q] ne q2 have "node_at fs3 q = Some n" by simp
          with e Inr fs2 False fs3 show ?thesis by (simp add: ensure_index_def)
        qed
      qed
    qed
  qed
qed

lemma mkdir_OUT_DIR_index:
  "mkdir_parents fs OUT_DIR = Inr fs1 \<Longrightarrow> node_at fs1 index_path = node_at fs index_path"
  using mkdir_parents_changes [of fs OUT_DIR fs1 index_path]
  by (auto simp: OUT_DIR_def index_path_def)

lemma ensure_index_index:
  "ensure_index fs = (r, fs') \<Longrightarrow>
     node_at fs' index_path = node_at fs index_path \<or>
     (node_at fs index_path = None \<and> node_at fs' index_path = Some (File index_header))"
proof -
  assume e: "ensure_index fs = (r, fs')"
  have ne: "index_path \<noteq> OUT_DIR @ [''.gitkeep'']"
    by (simp add: index_path_def)
  show ?thesis
  proof (cases "mkdir_parents fs OUT_DIR")
    case (Inl x)
    with e show ?thesis by (simp add: ensure_index_def)
  next
    case (Inr fs1)
    note i1 = mkdir_OUT_DIR_index [OF Inr]
    show ?thesis
    proof (cases "touch fs1 (OUT_DIR @ [''.gitkeep''])")
      case (Inl x)
      with e Inr i1 show ?thesis
        by (simp add: ensure_index_def)
    next
      case fs2: (Inr fs2)
      from touch_effect [OF fs2, of index_path] ne i1
      have i2: "node_at fs2 index_path = node_at fs index_path" by simp
      show ?thesis
      proof (cases "path_exists fs2 index_path")
        case True
        with e Inr fs2 i2 show ?thesis
          by (simp add: ensure_index_def)
      next
        case False
        with i2 have none: "node_at fs index_path = None"
          by (simp add: path_exists_def)
        show ?thesis
        proof (cases "write_text fs2 index_path index_header")
          case (Inl x)
          with e Inr fs2 False i2 show ?thesis
            by (simp add: ensure_index_def)
        next
          case fs3: (Inr fs3)
          from write_text_effect [OF fs3, of index_path]
          have "node_at fs3 index_path = Some (File index_header)" by simp
          with e Inr fs2 False fs3 none show ?thesis
            by (simp add: ensure_index_def)
        qed
      qed
    qed
  qed
qed


lemma mkdir_OUT_DIR_cases:
  "mkdir_parents fs OUT_DIR = Inr fs1 \<Longrightarrow>
     node_at fs1 OUT_DIR = Some Dir \<and> (q \<noteq> OUT_DIR \<longrightarrow> node_at fs1 q = node_at fs q)"
proof -
  assume m: "mkdir_parents fs OUT_DIR = Inr fs1"
  have "node_at fs1 q = node_at fs q" if "q \<noteq> OUT_DIR"
  proof (rule ccontr)
    assume d: "node_at fs1 q \<noteq> node_at fs q"
    then have "q \<noteq> []" by (auto simp: node_at_def)
    with mkdir_parents_changes [OF m d] that show False
      by (cases q) (auto simp: OUT_DIR_def)
  qed
  with mkdir_parents_effect [OF m, of q] show ?thesis by simp
qed

lemma ensure_index_changes:
  "ensure_index fs = (r, fs') \<Longrightarrow> node_at fs' q \<noteq> node_at fs q \<Longrightarrow>
     q = OUT_DIR \<or> q = OUT_DIR @ [''.gitkeep''] \<or> q = index_path"
proof -
  assume e: "ensure_index fs = (r, fs')" and d: "node_at fs' q \<noteq> node_at fs q"
  show ?thesis
  proof (rule ccontr)
    assume "\<not> ?thesis"
    then have q: "q \<noteq> OUT_DIR" "q \<noteq> OUT_DIR @ [''.gitkeep'']" "q \<noteq> index_path"
      by simp_all
    have "node_at fs' q = node_at fs q"
    proof (cases "mkdir_parents fs OUT_DIR")
      case (Inl x)
      with e show ?thesis by (simp add: ensure_index_def)
    next
      case (Inr fs1)
      from mkdir_OUT_DIR_cases [OF Inr, of q] q have q1: "node_at fs1 q = node_at fs q" by simp
      show ?thesis
      proof (cases "touch fs1 (OUT_DIR @ [''.gitkeep''])")
        case (Inl x)
        with e Inr q1 show ?thesis by (simp add: ensure_index_def)
      next
        case fs2: (Inr fs2)
        from touch_effect [OF fs2, of q] q q1 have q2: "node_at fs2 q = node_at fs q" by simp
        show ?thesis
        proof (cases "path_exists fs2 index_path")
          case True
          with e Inr fs2 q2 show ?thesis by (simp add: ensure_index_def)
        next
          case False
          show ?thesis
          proof (cases "write_text fs2 index_path index_header")
            case (Inl x)
            with e Inr fs2 False q2 show ?thesis by (simp add: ensure_index_def)
          next
            case fs3: (Inr fs3)
            from write_text_effect [OF fs3, of q] q q2 have "node_at fs3 q = node_at fs q" by simp
            with e Inr fs2 False fs3 show ?thesis by (simp add: ensure_index_def)
          qed
        qed
      qed
    qed
    with d show False by simp
  qed
qed

lemma ensure_index_fixed:
  "node_at fs OUT_DIR = Some Dir \<Longrightarrow> path_exists fs (OUT_DIR @ [''.gitkeep'']) \<Longrightarrow>
     path_exists fs index_path \<Longrightarrow> ensure_index fs = (Inr (), fs)"
  by (auto simp: ensure_index_def mkdir_parents_dir touch_def path_exists_def)

lemma ensure_index_ok:
  "ensure_index fs = (Inr u, fs') \<Longrightarrow>
     node_at fs' OUT_DIR = Some Dir \<and> path_exists fs' (OUT_DIR @ [''.gitkeep'']) \<and>
     path_exists fs' index_path"
proof -
  assume e: "ensure_index fs = (Inr u, fs')"
  then obtain fs1 where m: "mkdir_parents fs OUT_DIR = Inr fs1"
    by (cases "mkdir_parents fs OUT_DIR") (auto simp: ensure_index_def)
  with e obtain fs2 where t: "touch fs1 (OUT_DIR @ [''.gitkeep'']) = Inr fs2"
    by (cases "touch fs1 (OUT_DIR @ [''.gitkeep''])") (auto simp: ensure_index_def)
  from mkdir_OUT_DIR_cases [OF m] have d1: "node_at fs1 OUT_DIR = Some Dir" by simp
  from touch_effect [OF t, of OUT_DIR Dir] d1
  have d2: "node_at fs2 OUT_DIR = Some Dir" and g2: "path_exists fs2 (OUT_DIR @ [''.gitkeep''])"
    by simp_all
  show ?thesis
  proof (cases "path_exists fs2 index_path")
    case True
    with e m t d2 g2 show ?thesis by (simp add: ensure_index_def)
  next
    case False
    with e m t obtain fs3 where w: "write_text fs2 index_path index_header = Inr fs3" and "fs' = fs3"
      by (cases "write_text fs2 index_path index_header") (auto simp: ensure_index_def)
    moreover have "OUT_DIR \<noteq> index_path" "OUT_DIR @ [''.gitkeep''] \<noteq> index_path"
      by (simp_all add: index_path_def)
    ultimately show ?thesis
      using write_text_effect [OF w, of OUT_DIR] write_text_effect [OF w, of "OUT_DIR @ [''.gitkeep'']"]
        d2 g2
      by (simp add: path_exists_def)
  qed
qed

lemma ensure_index_succeeds:
  "node_at fs OUT_DIR = Some Dir \<Longrightarrow> fst (ensure_index fs) = Inr ()"
proof -
  assume d: "node_at fs OUT_DIR = Some Dir"
  have b: "butlast (OUT_DIR @ [x]) = OUT_DIR" for x :: string
    by simp
  have bi: "butlast index_path = OUT_DIR"
    by (simp add: index_path_def)
  have m: "mkdir_parents fs OUT_DIR = Inr fs"
    using d by (rule mkdir_parents_dir)
  obtain fs2 where t: "touch fs (OUT_DIR @ [''.gitkeep'']) = Inr fs2"
    using d by (cases "node_at fs (OUT_DIR @ [''.gitkeep''])") (simp_all add: touch_def create_def)
  from touch_effect [OF t, of OUT_DIR Dir] d have d2: "node_at fs2 OUT_DIR = Some Dir" by simp
  show ?thesis
  proof (cases "path_exists fs2 index_path")
    case True
    with m t show ?thesis by (simp add: ensure_index_def)
  next
    case False
    then have "write_text fs2 index_path index_header = Inr (fmupd index_path (File index_header) fs2)"
      using d2 by (simp add: write_text_def path_exists_def create_def bi)
    with False m t show ?thesis by (simp add: ensure_index_def)
  qed
qed

text \<open>
  Claim C9. Scaffolding is idempotent: when the output directory and the index file
  exist, \<open>ensure_index\<close> succeeds, leaves the content of the index as it is (no second
  header), changes no existing entry, and changes nothing at all when \<^verbatim>\<open>.gitkeep\<close>
  exists as well; running it again on its own result changes nothing.
\<close>

theorem ensure_index_idempotent:
  assumes "node_at fs OUT_DIR = Some Dir" and "node_at fs index_path = Some (File c)"
  shows "fst (ensure_index fs) = Inr () \<and>
         node_at (snd (ensure_index fs)) index_path = Some (File c) \<and>
         (\<forall>q n. node_at fs q = Some n \<longrightarrow> node_at (snd (ensure_index fs)) q = Some n) \<and>
         (path_exists fs (OUT_DIR @ [''.gitkeep'']) \<longrightarrow> snd (ensure_index fs) = fs) \<and>
         ensure_index (snd (ensure_index fs)) = ensure_index fs"
proof -
  obtain r fs' where e: "ensure_index fs = (r, fs')"
    by (cases "ensure_index fs")
  from ensure_index_succeeds [OF assms(1)] e have r: "r = Inr ()" by simp
  note keeps = ensure_index_keeps [OF e]
  from ensure_index_ok [of fs "()" fs'] e r
  have ok: "node_at fs' OUT_DIR = Some Dir" "path_exists fs' (OUT_DIR @ [''.gitkeep''])"
    "path_exists fs' index_path"
    by simp_all
  have again: "ensure_index fs' = (Inr (), fs')"
    using ok by (rule ensure_index_fixed)
  have same: "fs' = fs" if "path_exists fs (OUT_DIR @ [''.gitkeep''])"
    using ensure_index_fixed [OF assms(1) that] assms(2) e by (simp add: path_exists_def)
  from e r keeps assms(2) again same show ?thesis
    by simp
qed

theorem ensure_index_idempotent_witness:
  "node_at (fmupd index_path (File ''# Log'') (fmupd OUT_DIR Dir fmempty)) OUT_DIR = Some Dir \<and>
   node_at (fmupd index_path (File ''# Log'') (fmupd OUT_DIR Dir fmempty)) index_path
     = Some (File ''# Log'') \<and>
   fst (ensure_index (fmupd index_path (File ''# Log'') (fmupd OUT_DIR Dir fmempty))) = Inr () \<and>
   node_at (snd (ensure_index (fmupd index_path (File ''# Log'') (fmupd OUT_DIR Dir fmempty))))
     index_path = Some (File ''# Log'')"
proof -
  let ?fs = "fmupd index_path (File ''# Log'') (fmupd OUT_DIR Dir fmempty)"
  have a: "node_at ?fs OUT_DIR = Some Dir"
    by (simp add: node_at_def OUT_DIR_def index_path_def)
  have b: "node_at ?fs index_path = Some (File ''# Log'')"
    by (simp add: node_at_def OUT_DIR_def index_path_def)
  from ensure_index_idempotent [OF a b] a b show ?thesis
    by blast
qed

section \<open>Properties of the seed and of the selection\<close>

lemma is_digit_digit_char: "d < 10 \<Longrightarrow> is_digit (digit_char d)"
proof -
  assume "d < 10"
  then have "d \<in> {0, 1, 2, 3, 4, 5, 6, 7, 8, 9}" by auto
  then show ?thesis
    by (auto simp: is_digit_def digit_char_def)
qed

lemma str_nat_digits: "list_all is_digit (str_nat n)"
proof (induction n rule: str_nat.induct)
  case (1 n)
  show ?case
  proof (cases "n < 10")
    case True
    then show ?thesis
      by (simp add: str_nat.simps [of n] is_digit_digit_char)
  next
    case False
    with "1.IH" show ?thesis
      by (simp add: str_nat.simps [of n] is_digit_digit_char)
  qed
qed

lemma str_nat_not_Nil: "str_nat n \<noteq> []"
  by (simp add: str_nat.simps [of n])

lemma zfill_digits: "list_all is_digit (zfill w (str_nat n))"
proof -
  have "is_digit (CHR ''0'')"
    by (simp add: is_digit_def)
  with str_nat_digits [of n] show ?thesis
    by (auto simp: zfill_def list_all_iff)
qed

lemma zfill_not_Nil: "zfill w (str_nat n) \<noteq> []"
  by (simp add: zfill_def str_nat_not_Nil)

lemma length_str_nat_100: "n < 100 \<Longrightarrow> length (str_nat n) \<le> 2"
proof -
  assume n: "n < 100"
  show ?thesis
  proof (cases "n < 10")
    case True
    then show ?thesis by (simp add: str_nat.simps [of n])
  next
    case False
    with n have "n div 10 < 10" by simp
    with False show ?thesis
      by (simp add: str_nat.simps [of n] str_nat.simps [of "n div 10"])
  qed
qed

lemma int_of_digits_zeros:
  "int_of_digits acc (replicate k (CHR ''0'')) = Inr (acc * 10 ^ k)"
proof (induction k arbitrary: acc)
  case 0
  then show ?case by simp
next
  case (Suc k)
  have "digit_value (CHR ''0'') = Some 0"
    by (simp add: digit_value_def)
  with Suc show ?case by simp
qed

lemma int_of_digits_zfill:
  "int_of_digits acc (zfill w (str_nat n)) = Inr (acc * 10 ^ length (zfill w (str_nat n)) + n)"
  by (simp add: zfill_def int_of_digits_append int_of_digits_zeros int_of_digits_str_nat
      power_add algebra_simps)

lemma length_zfill_2: "n < 100 \<Longrightarrow> length (zfill 2 (str_nat n)) = 2"
  using length_str_nat_100 [of n] by (simp add: zfill_def)

lemma today_seed_value:
  assumes "month d < 100" and "day d < 100"
  shows "today_seed d = Inr (int (year d * 10000 + month d * 100 + day d))"
proof -
  have "int_of_digits 0 (strftime_Ymd d) = Inr (year d * 10000 + month d * 100 + day d)"
    by (simp add: strftime_Ymd_def int_of_digits_append int_of_digits_zfill
        length_zfill_2 [OF assms(1)] length_zfill_2 [OF assms(2)])
  moreover have "strftime_Ymd d \<noteq> []"
    by (simp add: strftime_Ymd_def zfill_not_Nil)
  ultimately show ?thesis
    by (simp add: today_seed_def py_int_def)
qed

lemma same_date_formats:
  assumes "year d1 = year d2" and "month d1 = month d2" and "day d1 = day d2"
  shows "strftime_Ymd d1 = strftime_Ymd d2" and "strftime_date d1 = strftime_date d2"
    and "strftime_year d1 = strftime_year d2"
  using assms by (simp_all add: strftime_Ymd_def strftime_date_def strftime_year_def)

lemma main_by_selection:
  "main sr rb clk fs =
     (case today_seed (at_seed clk) of
        Inl e \<Rightarrow> (Inl e, fs)
      | Inr sd \<Rightarrow>
          (case ensure_index fs of
             (Inl e, fs1) \<Rightarrow> (Inl e, fs1)
           | (Inr u, fs1) \<Rightarrow>
               (case selection sr rb (at_seed clk) of
                  Inl e \<Rightarrow> (Inl e, fs1)
                | Inr (t, ps) \<Rightarrow> main_write t ps clk fs1)))"
proof (cases "today_seed (at_seed clk)")
  case (Inl e)
  then show ?thesis by (simp add: main_def)
next
  case (Inr sd)
  then have sel: "selection sr rb (at_seed clk) = draw_selection rb (sr sd)"
    by (simp add: selection_def)
  show ?thesis
    unfolding main_def sel Inr by simp
qed

text \<open>
  Claim C1. Two invocations whose clock shows the same UTC date choose the same template
  and the same parameter values, whatever the time of day and the file system: the seed
  is the integer \<open>YYYYMMDD\<close> of the date, the generator is initialised from it, and
  \<open>main\<close> takes the template and the parameters from \<open>selection\<close>, which draws from that
  generator only.
\<close>

theorem same_date_same_selection:
  assumes "year (at_seed clk1) = year (at_seed clk2)"
    and "month (at_seed clk1) = month (at_seed clk2)"
    and "day (at_seed clk1) = day (at_seed clk2)"
    and "month (at_seed clk1) < 100" and "day (at_seed clk1) < 100"
  shows "today_seed (at_seed clk1) =
           Inr (int (year (at_seed clk1) * 10000 + month (at_seed clk1) * 100 + day (at_seed clk1))) \<and>
         today_seed (at_seed clk2) = today_seed (at_seed clk1) \<and>
         selection sr rb (at_seed clk2) = selection sr rb (at_seed clk1) \<and>
         selection sr rb (at_seed clk1) =
           draw_selection rb
             (sr (int (year (at_seed clk1) * 10000 + month (at_seed clk1) * 100 + day (at_seed clk1)))) \<and>
         main sr rb clk1 fs1 =
           (case ensure_index fs1 of
              (Inl e, fs') \<Rightarrow> (Inl e, fs')
            | (Inr u, fs') \<Rightarrow>
                (case selection sr rb (at_seed clk1) of
                   Inl e \<Rightarrow> (Inl e, fs')
                 | Inr (t, ps) \<Rightarrow> main_write t ps clk1 fs')) \<and>
         main sr rb clk2 fs2 =
           (case ensure_index fs2 of
              (Inl e, fs') \<Rightarrow> (Inl e, fs')
            | (Inr u, fs') \<Rightarrow>
                (case selection sr rb (at_seed clk1) of
                   Inl e \<Rightarrow> (Inl e, fs')
                 | Inr (t, ps) \<Rightarrow> main_write t ps clk2 fs'))"
proof -
  note seed1 = today_seed_value [OF assms(4) assms(5)]
  have seed2: "today_seed (at_seed clk2) = today_seed (at_seed clk1)"
    using same_date_formats(1) [OF assms(1-3)] by (simp add: today_seed_def)
  have sel: "selection sr rb (at_seed clk2) = selection sr rb (at_seed clk1)"
    by (simp add: selection_def seed2)
  have sel1: "selection sr rb (at_seed clk1) =
      draw_selection rb
        (sr (int (year (at_seed clk1) * 10000 + month (at_seed clk1) * 100 + day (at_seed clk1))))"
    by (simp add: selection_def seed1)
  have m1: "main sr rb clk1 fs1 =
      (case ensure_index fs1 of
         (Inl e, fs') \<Rightarrow> (Inl e, fs')
       | (Inr u, fs') \<Rightarrow>
           (case selection sr rb (at_seed clk1) of
              Inl e \<Rightarrow> (Inl e, fs')
            | Inr (t, ps) \<Rightarrow> main_write t ps clk1 fs'))"
    by (simp add: main_by_selection [of sr rb clk1] seed1)
  have m2: "main sr rb clk2 fs2 =
      (case ensure_index fs2 of
         (Inl e, fs') \<Rightarrow> (Inl e, fs')
       | (Inr u, fs') \<Rightarrow>
           (case selection sr rb (at_seed clk1) of
              Inl e \<Rightarrow> (Inl e, fs')
            | Inr (t, ps) \<Rightarrow> main_write t ps clk2 fs'))"
    unfolding main_by_selection [of sr rb clk2] seed2 seed1 sel by simp
  from seed1 seed2 sel sel1 m1 m2 show ?thesis
    by (intro conjI)
qed

theorem same_date_same_selection_witness:
  "year (at_seed (fixed_clock morning)) = year (at_seed (fixed_clock evening)) \<and>
   month (at_seed (fixed_clock morning)) = month (at_seed (fixed_clock evening)) \<and>
   day (at_seed (fixed_clock morning)) = day (at_seed (fixed_clock evening)) \<and>
   month (at_seed (fixed_clock morning)) < 100 \<and> day (at_seed (fixed_clock morning)) < 100 \<and>
   today_seed (at_seed (fixed_clock morning)) = Inr 20240101 \<and>
   today_seed (at_seed (fixed_clock evening)) = Inr 20240101 \<and>
   selection (\<lambda>sd. [nat sd mod 5, 4]) replay_randbelow (at_seed (fixed_clock evening))
     = selection (\<lambda>sd. [nat sd mod 5, 4]) replay_randbelow (at_seed (fixed_clock morning))"
proof -
  have h: "year (at_seed (fixed_clock morning)) = year (at_seed (fixed_clock evening))"
    "month (at_seed (fixed_clock morning)) = month (at_seed (fixed_clock evening))"
    "day (at_seed (fixed_clock morning)) = day (at_seed (fixed_clock evening))"
    "month (at_seed (fixed_clock morning)) < 100" "day (at_seed (fixed_clock morning)) < 100"
    by (simp_all add: fixed_clock_def morning_def evening_def)
  have v: "int (year (at_seed (fixed_clock morning)) * 10000
      + month (at_seed (fixed_clock morning)) * 100 + day (at_seed (fixed_clock morning))) = 20240101"
    by (simp add: fixed_clock_def morning_def)
  note t = same_date_same_selection [OF h, of "\<lambda>sd. [nat sd mod 5, 4]" replay_randbelow fmempty fmempty]
  from t have s1: "today_seed (at_seed (fixed_clock morning)) = Inr 20240101"
    unfolding v by (rule conjunct1)
  from t have s2: "today_seed (at_seed (fixed_clock evening)) = today_seed (at_seed (fixed_clock morning))"
    by (elim conjE)
  from t have s3: "selection (\<lambda>sd. [nat sd mod 5, 4]) replay_randbelow (at_seed (fixed_clock evening))
     = selection (\<lambda>sd. [nat sd mod 5, 4]) replay_randbelow (at_seed (fixed_clock morning))"
    by (elim conjE)
  from s2 s1 have s2': "today_seed (at_seed (fixed_clock evening)) = Inr 20240101"
    by simp
  from h s1 s2' s3 show ?thesis
    by (intro conjI)
qed

section \<open>Properties of the renderer\<close>





lemma fields_cases [consumes 1, case_names Nil Open Field Close Char]:
  assumes wf: "fields s = Some fs"
    and nil: "P [] []"
    and opn: "\<And>ds fs. fields ds = Some fs \<Longrightarrow> P ds fs \<Longrightarrow> P (CHR ''{'' # CHR ''{'' # ds) fs"
    and fld: "\<And>cs f rest fs. cs \<noteq> [] \<Longrightarrow> hd cs \<noteq> CHR ''{'' \<Longrightarrow> field_end cs = Some (f, rest) \<Longrightarrow>
                field_kind f = None \<Longrightarrow> fields rest = Some fs \<Longrightarrow> P rest fs \<Longrightarrow>
                P (CHR ''{'' # cs) (f # fs)"
    and cls: "\<And>ds fs. fields ds = Some fs \<Longrightarrow> P ds fs \<Longrightarrow> P (CHR ''}'' # CHR ''}'' # ds) fs"
    and chr: "\<And>c cs fs. c \<noteq> CHR ''{'' \<Longrightarrow> c \<noteq> CHR ''}'' \<Longrightarrow> fields cs = Some fs \<Longrightarrow> P cs fs \<Longrightarrow>
                P (c # cs) fs"
  shows "P s fs"
  using wf
proof (induction s arbitrary: fs rule: fields.induct)
  case 1
  with nil show ?case by simp
next
  case (2 c cs)
  note wf = "2.prems"
  consider (o) "c = CHR ''{''" | (c) "c = CHR ''}''" | (x) "c \<noteq> CHR ''{''" "c \<noteq> CHR ''}''"
    by blast
  then show ?case
  proof cases
    case o
    show ?thesis
    proof (cases cs)
      case Nil
      with wf o show ?thesis by simp
    next
      case (Cons d ds)
      show ?thesis
      proof (cases "d = CHR ''{''")
        case True
        with wf o Cons have w: "fields ds = Some fs" by simp
        from "2.IH"(1) [OF o Cons True w] have "P ds fs" .
        with w o Cons True show ?thesis by (simp add: opn)
      next
        case False
        with wf o Cons obtain f rest where fe: "field_end cs = Some (f, rest)"
          by (cases "field_end cs") auto
        with wf o Cons False have fk: "field_kind f = None"
          by (cases "field_kind f") auto
        with wf o Cons False fe obtain fs' where w: "fields rest = Some fs'" and fs: "fs = f # fs'"
          by (cases "fields rest") auto
        from "2.IH"(2) [OF o Cons False fe refl fk w] have "P rest fs'" .
        from fld [OF _ _ fe fk w this] Cons False o fs show ?thesis by simp
      qed
    qed
  next
    case c
    show ?thesis
    proof (cases cs)
      case Nil
      with wf c show ?thesis by simp
    next
      case (Cons d ds)
      show ?thesis
      proof (cases "d = CHR ''}''")
        case True
        with wf c Cons have w: "fields ds = Some fs" by simp
        have "c \<noteq> CHR ''{''" using c by simp
        from "2.IH"(3) [OF this c Cons True w] have "P ds fs" .
        with w c Cons True show ?thesis by (simp add: cls)
      next
        case False
        with wf c Cons show ?thesis by simp
      qed
    qed
  next
    case x
    with wf have w: "fields cs = Some fs" by simp
    from "2.IH"(4) [OF x w] have "P cs fs" .
    with x w show ?thesis by (simp add: chr)
  qed
qed

lemma py_format_field:
  "cs \<noteq> [] \<Longrightarrow> hd cs \<noteq> CHR ''{'' \<Longrightarrow> field_end cs = Some (f, rest) \<Longrightarrow> field_kind f = None \<Longrightarrow>
     py_format env (CHR ''{'' # cs) =
       (case env f of
          None \<Rightarrow> Inl (KeyError f)
        | Some v \<Rightarrow> (case py_format env rest of Inl e \<Rightarrow> Inl e | Inr out \<Rightarrow> Inr (py_str v @ out)))"
  by (cases cs) simp_all

lemma py_format_open:
  "py_format env (CHR ''{'' # CHR ''{'' # ds) =
     (case py_format env ds of Inl e \<Rightarrow> Inl e | Inr out \<Rightarrow> Inr (CHR ''{'' # out))"
  by simp

lemma py_format_close:
  "py_format env (CHR ''}'' # CHR ''}'' # ds) =
     (case py_format env ds of Inl e \<Rightarrow> Inl e | Inr out \<Rightarrow> Inr (CHR ''}'' # out))"
  by simp

lemma py_format_char:
  "c \<noteq> CHR ''{'' \<Longrightarrow> c \<noteq> CHR ''}'' \<Longrightarrow>
     py_format env (c # cs) = (case py_format env cs of Inl e \<Rightarrow> Inl e | Inr out \<Rightarrow> Inr (c # out))"
  by simp

declare py_format.simps(2) [simp del]

lemmas py_format_steps = py_format_field py_format_open py_format_close py_format_char

lemma fields_format_ok:
  "fields s = Some fs \<Longrightarrow> \<forall>n\<in>set fs. env n \<noteq> None \<Longrightarrow> \<exists>out. py_format env s = Inr out"
proof (induction s fs rule: fields_cases)
  case Nil
  show ?case by simp
next
  case (Open ds fs)
  then show ?case by (auto simp: py_format_steps)
next
  case (Field cs f rest fs)
  then show ?case by (auto simp: py_format_steps)
next
  case (Close ds fs)
  then show ?case by (auto simp: py_format_steps)
next
  case (Char c cs fs)
  then show ?case by (auto simp: py_format_steps)
qed

lemma fields_format_missing:
  "fields s = Some fs \<Longrightarrow> \<exists>n\<in>set fs. env n = None \<Longrightarrow>
     \<exists>m\<in>set fs. env m = None \<and> py_format env s = Inl (KeyError m)"
proof (induction s fs rule: fields_cases)
  case Nil
  then show ?case by simp
next
  case (Open ds fs)
  then show ?case by (auto simp: py_format_steps)
next
  case (Field cs f rest fs)
  show ?case
  proof (cases "env f")
    case None
    with Field show ?thesis by (simp add: py_format_steps)
  next
    case (Some v)
    with Field.prems have "\<exists>n\<in>set fs. env n = None" by auto
    from Field.IH [OF this] obtain m where "m \<in> set fs" "env m = None"
      "py_format env rest = Inl (KeyError m)" by blast
    with Some Field.hyps show ?thesis by (auto simp: py_format_steps)
  qed
next
  case (Close ds fs)
  then show ?case by (auto simp: py_format_steps)
next
  case (Char c cs fs)
  then show ?case by (auto simp: py_format_steps)
qed


lemma scan_fibonacci_iterative:
  "(let d = dedent code_fibonacci_iterative in (fields d, no_double_brace d))
     = (Some [''N'', ''N''], True)"
  by code_simp

lemma scan_sieve_of_eratosthenes:
  "(let d = dedent code_sieve_of_eratosthenes in (fields d, no_double_brace d))
     = (Some [''LIMIT'', ''LIMIT''], True)"
  by code_simp

lemma scan_merge_sort:
  "(let d = dedent code_merge_sort in (fields d, no_double_brace d))
     = (Some [''DATA''], True)"
  by code_simp

lemma scan_levenshtein_distance:
  "(let d = dedent code_levenshtein_distance in (fields d, no_double_brace d))
     = (Some [''A'', ''B'', ''A'', ''B''], True)"
  by code_simp

lemma scan_dijkstra_on_grid:
  "(let d = dedent code_dijkstra_on_grid in (fields d, no_double_brace d))
     = (Some [''GRID''], True)"
  by code_simp

lemma template_cases:
  assumes "t \<in> set templates"
  obtains
    (fib) "name t = ''fibonacci_iterative''" "code t = code_fibonacci_iterative"
      "params t = params_fibonacci_iterative"
      "desc t = ''Compute the first N Fibonacci numbers iteratively.''"
  | (sieve) "name t = ''sieve_of_eratosthenes''" "code t = code_sieve_of_eratosthenes"
      "params t = params_sieve_of_eratosthenes"
      "desc t = ''Generate primes up to a limit using the Sieve of Eratosthenes.''"
  | (msort) "name t = ''merge_sort''" "code t = code_merge_sort"
      "params t = params_merge_sort"
      "desc t = ''Stable merge sort implementation with type hints.''"
  | (leven) "name t = ''levenshtein_distance''" "code t = code_levenshtein_distance"
      "params t = params_levenshtein_distance"
      "desc t = ''Compute Levenshtein (edit) distance between two strings.''"
  | (dijk) "name t = ''dijkstra_on_grid''" "code t = code_dijkstra_on_grid"
      "params t = params_dijkstra_on_grid"
      "desc t = ''Dijkstra shortest path on a small weighted grid (no deps).''"
  using assms by (auto simp: templates_def)

lemma registry_fields:
  "fields (dedent code_fibonacci_iterative) = Some [''N'', ''N'']"
  "fields (dedent code_sieve_of_eratosthenes) = Some [''LIMIT'', ''LIMIT'']"
  "fields (dedent code_merge_sort) = Some [''DATA'']"
  "fields (dedent code_levenshtein_distance) = Some [''A'', ''B'', ''A'', ''B'']"
  "fields (dedent code_dijkstra_on_grid) = Some [''GRID'']"
  using scan_fibonacci_iterative scan_sieve_of_eratosthenes scan_merge_sort
    scan_levenshtein_distance scan_dijkstra_on_grid
  by (simp_all add: Let_def)

lemma registry_no_double_brace:
  "no_double_brace (dedent code_fibonacci_iterative)"
  "no_double_brace (dedent code_sieve_of_eratosthenes)"
  "no_double_brace (dedent code_merge_sort)"
  "no_double_brace (dedent code_levenshtein_distance)"
  "no_double_brace (dedent code_dijkstra_on_grid)"
  using scan_fibonacci_iterative scan_sieve_of_eratosthenes scan_merge_sort
    scan_levenshtein_distance scan_dijkstra_on_grid
  by (simp_all add: Let_def)

lemma registry_placeholders:
  assumes "t \<in> set templates"
  shows "fields (dedent (code t)) = Some (placeholders (code t))"
    and "no_double_brace (dedent (code t))"
  using assms
  by (cases t rule: template_cases;
      simp add: placeholders_def registry_fields registry_no_double_brace)+

lemma registry_keys:
  assumes "t \<in> set templates" and "params t rb s = Inr (ps, s')"
  shows "set (placeholders (code t)) \<subseteq> fst ` set ps"
  using assms(1)
proof (cases t rule: template_cases)
  case fib
  with assms(2) show ?thesis
    by (auto simp: placeholders_def registry_fields params_fibonacci_iterative_def
        split: prod.splits)
next
  case sieve
  with assms(2) show ?thesis
    by (auto simp: placeholders_def registry_fields params_sieve_of_eratosthenes_def
        split: prod.splits)
next
  case msort
  with assms(2) show ?thesis
    by (auto simp: placeholders_def registry_fields params_merge_sort_def
        split: prod.splits sum.splits)
next
  case leven
  with assms(2) show ?thesis
    by (auto simp: placeholders_def registry_fields params_levenshtein_distance_def
        split: prod.splits sum.splits)
next
  case dijk
  with assms(2) show ?thesis
    by (auto simp: placeholders_def registry_fields params_dijkstra_on_grid_def
        split: prod.splits sum.splits)
qed

lemma map_of_mem: "n \<in> fst ` set ps \<Longrightarrow> map_of ps n \<noteq> None"
  by (simp add: map_of_eq_None_iff)

lemma render_body_ok:
  "fields (dedent body) = Some fs \<Longrightarrow> \<forall>n\<in>set fs. map_of ps n \<noteq> None \<Longrightarrow>
     \<exists>out. render_body body ps = Inr out"
  using fields_format_ok [of "dedent body" fs "map_of ps"]
  by (auto simp: render_body_def)

lemma render_ok:
  "fields (dedent (code t)) = Some fs \<Longrightarrow> \<forall>n\<in>set fs. map_of ps n \<noteq> None \<Longrightarrow>
     \<exists>out. render t d ps = Inr out"
  using render_body_ok [of "code t" fs ps]
  by (auto simp: render_def)

lemma int_of_digits_error: "int_of_digits acc s = Inl e \<Longrightarrow> e = ValueError"
  by (induction s arbitrary: acc) (auto split: option.splits)

lemma today_seed_error: "today_seed d = Inl e \<Longrightarrow> e = ValueError"
  by (auto simp: today_seed_def py_int_def split: if_splits sum.splits dest: int_of_digits_error)

lemma create_error: "create fs p n = Inl e \<Longrightarrow> e = NotADirectoryError \<or> e = FileNotFoundError"
  by (auto simp: create_def split: option.splits node.splits)

lemma write_text_error: "write_text fs p t = Inl e \<Longrightarrow> e \<noteq> KeyError k"
  by (auto simp: write_text_def split: option.splits node.splits dest: create_error)

lemma append_text_error: "append_text fs p t = Inl e \<Longrightarrow> e \<noteq> KeyError k"
  by (auto simp: append_text_def split: option.splits node.splits dest: create_error)

lemma touch_error: "touch fs p = Inl e \<Longrightarrow> e \<noteq> KeyError k"
  by (auto simp: touch_def split: option.splits dest: create_error)

lemma mkdir_parents_error: "mkdir_parents fs p = Inl e \<Longrightarrow> e \<noteq> KeyError k"
  by (auto dest: mkdir_parents_Inl)

lemma ensure_index_error: "ensure_index fs = (Inl e, fs') \<Longrightarrow> e \<noteq> KeyError k"
  by (auto simp: ensure_index_def split: sum.splits if_splits
      dest: mkdir_parents_error touch_error write_text_error)

lemma choice_error: "choice rb seq s = Inl e \<Longrightarrow> e = IndexError"
  by (auto simp: choice_def split: prod.splits if_splits)

lemma repeat_draw_error:
  "repeat_draw k f s = Inl e \<Longrightarrow> \<exists>s'. f s' = Inl e"
  by (induction k arbitrary: s) (auto split: sum.splits prod.splits)

lemma params_error:
  assumes "t \<in> set templates" and "params t rb s = Inl e"
  shows "e = IndexError"
  using assms(1)
proof (cases t rule: template_cases)
  case fib
  with assms(2) show ?thesis
    by (auto simp: params_fibonacci_iterative_def split: prod.splits)
next
  case sieve
  with assms(2) show ?thesis
    by (auto simp: params_sieve_of_eratosthenes_def split: prod.splits)
next
  case msort
  with assms(2) show ?thesis
    by (auto simp: params_merge_sort_def split: prod.splits sum.splits dest!: repeat_draw_error)
next
  case leven
  with assms(2) show ?thesis
    by (auto simp: params_levenshtein_distance_def random_word_def
        split: prod.splits sum.splits dest!: repeat_draw_error choice_error)
next
  case dijk
  with assms(2) show ?thesis
    by (auto simp: params_dijkstra_on_grid_def random_row_def
        split: prod.splits sum.splits dest!: repeat_draw_error)
qed

lemma pick_template_mem: "pick_template rb s = Inr (t, s') \<Longrightarrow> t \<in> set templates"
  by (auto simp: pick_template_def choice_def split: prod.splits if_splits)

lemma draw_selection_Inr:
  "draw_selection rb s = Inr (t, ps) \<Longrightarrow>
     t \<in> set templates \<and> (\<exists>s1 s2. pick_template rb s = Inr (t, s1) \<and> params t rb s1 = Inr (ps, s2))"
  by (auto simp: draw_selection_def split: sum.splits prod.splits dest: pick_template_mem)

lemma draw_selection_error: "draw_selection rb s = Inl e \<Longrightarrow> e = IndexError"
proof (cases "pick_template rb s")
  case (Inl x)
  assume "draw_selection rb s = Inl e"
  with Inl show ?thesis
    by (auto simp: draw_selection_def pick_template_def dest: choice_error)
next
  case (Inr p)
  assume d: "draw_selection rb s = Inl e"
  obtain t s1 where p: "p = (t, s1)" by (cases p)
  with Inr have "t \<in> set templates" by (auto dest: pick_template_mem)
  moreover from d Inr p have "params t rb s1 = Inl e"
    by (auto simp: draw_selection_def split: sum.splits prod.splits)
  ultimately show ?thesis by (rule params_error)
qed

lemma main_write_key_error:
  "main_write t ps clk fs = (Inl (KeyError k), fs') \<Longrightarrow>
     render t (strftime_date (at_date clk)) ps = Inl (KeyError k)"
  by (auto simp: main_write_def Let_def update_index_def
      split: sum.splits prod.splits
      dest: mkdir_parents_error write_text_error append_text_error)


lemma main_key_error:
  "main sr rb clk fs = (Inl (KeyError k), fs') \<Longrightarrow>
     \<exists>t ps rng. draw_selection rb rng = Inr (t, ps) \<and>
       render t (strftime_date (at_date clk)) ps = Inl (KeyError k)"
proof -
  assume m: "main sr rb clk fs = (Inl (KeyError k), fs')"
  then obtain sd where sd: "today_seed (at_seed clk) = Inr sd"
    by (cases "today_seed (at_seed clk)") (auto simp: main_def dest: today_seed_error)
  obtain r fs1 where e: "ensure_index fs = (r, fs1)" by (cases "ensure_index fs")
  with m sd obtain u where r: "r = Inr u"
    by (cases r) (auto simp: main_def dest: ensure_index_error)
  from m sd e r obtain t ps where d: "draw_selection rb (sr sd) = Inr (t, ps)"
    by (cases "draw_selection rb (sr sd)") (auto simp: main_def dest: draw_selection_error)
  with m sd e r have "main_write t ps clk fs1 = (Inl (KeyError k), fs')"
    by (simp add: main_def)
  from main_write_key_error [OF this] d show ?thesis by blast
qed

lemma choice_ok:
  "randbelow_in_range rb \<Longrightarrow> seq \<noteq> [] \<Longrightarrow> \<exists>x s'. choice rb seq s = Inr (x, s')"
proof -
  assume r: "randbelow_in_range rb" and "seq \<noteq> []"
  then have "fst (rb s (length seq)) < length seq"
    by (simp add: randbelow_in_range_def)
  then show ?thesis
    by (cases "rb s (length seq)") (simp add: choice_def)
qed

lemma repeat_draw_ok:
  "(\<And>s. \<exists>x s'. f s = Inr (x, s')) \<Longrightarrow> \<exists>xs s'. repeat_draw k f s = Inr (xs, s')"
proof (induction k arbitrary: s)
  case 0
  show ?case by simp
next
  case (Suc k)
  from Suc.prems obtain x s1 where x: "f s = Inr (x, s1)" by blast
  from Suc.IH [OF Suc.prems, of s1] obtain xs s2 where "repeat_draw k f s1 = Inr (xs, s2)"
    by blast
  with x show ?case by simp
qed

lemma params_ok:
  assumes "t \<in> set templates" and "randbelow_in_range rb"
  shows "\<exists>ps s'. params t rb s = Inr (ps, s')"
proof -
  have c: "\<exists>x s'. choice rb letters s0 = Inr (x, s')" if "letters \<noteq> []" for letters :: string and s0
    using assms(2) that by (rule choice_ok)
  have w: "\<exists>x s'. random_word rb letters s0 = Inr (x, s')" if "letters \<noteq> []" for letters s0
    using repeat_draw_ok [of "choice rb letters"] c [OF that]
    by (simp add: random_word_def split: prod.splits)
  have i: "\<exists>x s'. (Inr (randint rb a b s0) :: error + int \<times> _) = Inr (x, s')" for a b s0
    by (cases "randint rb a b s0") simp
  have row: "\<exists>x s'. random_row rb s0 = Inr (x, s')" for s0
    using repeat_draw_ok [of "\<lambda>s. Inr (randint rb 1 9 s)"] i
    by (simp add: random_row_def split: prod.splits)
  from assms(1) show ?thesis
  proof (cases t rule: template_cases)
    case fib
    then show ?thesis
      by (simp add: params_fibonacci_iterative_def split: prod.splits)
  next
    case sieve
    then show ?thesis
      by (simp add: params_sieve_of_eratosthenes_def split: prod.splits)
  next
    case msort
    obtain k s1 where k: "randint rb 8 14 s = (k, s1)" by (cases "randint rb 8 14 s")
    from repeat_draw_ok [of "\<lambda>s. Inr (randint rb (- 50) 50 s)" "nat k" s1] i
    obtain xs s2 where "repeat_draw (nat k) (\<lambda>s. Inr (randint rb (- 50) 50 s)) s1 = Inr (xs, s2)"
      by blast
    with msort k show ?thesis
      by (simp add: params_merge_sort_def)
  next
    case leven
    from w [of "''codecraft''" s] obtain a s1 where a: "random_word rb ''codecraft'' s = Inr (a, s1)"
      by auto
    from w [of "''workflows''" s1] obtain b s2 where "random_word rb ''workflows'' s1 = Inr (b, s2)"
      by auto
    with leven a show ?thesis
      by (simp add: params_levenshtein_distance_def)
  next
    case dijk
    obtain k s1 where k: "randint rb 4 6 s = (k, s1)" by (cases "randint rb 4 6 s")
    from repeat_draw_ok [of "random_row rb" "nat k" s1] row
    obtain g s2 where "repeat_draw (nat k) (random_row rb) s1 = Inr (g, s2)"
      by blast
    with dijk k show ?thesis
      by (simp add: params_dijkstra_on_grid_def)
  qed
qed

text \<open>
  Claim C10. For every template of the registry and every state of the generator, the
  mapping its parameter generator returns has an entry for every placeholder of its code
  body; rendering it succeeds, and no invocation of \<open>main\<close> ends in the renderer's
  \<^verbatim>\<open>KeyError\<close>. With a generator that stays in range the parameter generator does
  return a mapping.
\<close>

theorem registry_params_cover_placeholders:
  assumes "t \<in> set templates" and "params t rb s = Inr (ps, s')"
  shows "fields (dedent (code t)) = Some (placeholders (code t)) \<and>
         set (placeholders (code t)) \<subseteq> fst ` set ps \<and>
         (\<exists>text. render t d ps = Inr text) \<and>
         fst (main sr rb clk fs) \<noteq> Inl (KeyError k) \<and>
         (randbelow_in_range rb \<longrightarrow> (\<exists>ps1 s1. params t rb s0 = Inr (ps1, s1)))"
proof -
  note f = registry_placeholders(1) [OF assms(1)]
  note keys = registry_keys [OF assms]
  have cover: "\<forall>n\<in>set (placeholders (code t)). map_of ps n \<noteq> None"
  proof
    fix n assume "n \<in> set (placeholders (code t))"
    with keys have "n \<in> fst ` set ps" by blast
    then show "map_of ps n \<noteq> None" by (rule map_of_mem)
  qed
  from render_ok [OF f cover] have r: "\<exists>text. render t d ps = Inr text" .
  have "fst (main sr rb clk fs) \<noteq> Inl (KeyError k)"
  proof
    assume "fst (main sr rb clk fs) = Inl (KeyError k)"
    then obtain fs' where "main sr rb clk fs = (Inl (KeyError k), fs')"
      by (cases "main sr rb clk fs") simp
    from main_key_error [OF this] obtain t1 ps1 rng where
      d: "draw_selection rb rng = Inr (t1, ps1)"
      and e: "render t1 (strftime_date (at_date clk)) ps1 = Inl (KeyError k)"
      by blast
    from draw_selection_Inr [OF d] obtain s1 s2 where
      t1: "t1 \<in> set templates" and p1: "params t1 rb s1 = Inr (ps1, s2)"
      by blast
    have "\<forall>n\<in>set (placeholders (code t1)). map_of ps1 n \<noteq> None"
    proof
      fix n assume "n \<in> set (placeholders (code t1))"
      with registry_keys [OF t1 p1] have "n \<in> fst ` set ps1" by blast
      then show "map_of ps1 n \<noteq> None" by (rule map_of_mem)
    qed
    from render_ok [where d = "strftime_date (at_date clk)", OF registry_placeholders(1) [OF t1] this] e
    show False by auto
  qed
  with f keys r params_ok [OF assms(1)] show ?thesis
    by blast
qed

lemma hd_templates:
  "hd templates \<in> set templates" "code (hd templates) = code_fibonacci_iterative"
  "params (hd templates) = params_fibonacci_iterative" "name (hd templates) = ''fibonacci_iterative''"
  "desc (hd templates) = ''Compute the first N Fibonacci numbers iteratively.''"
  by (simp_all add: templates_def)

lemma placeholders_fibonacci: "placeholders code_fibonacci_iterative = [''N'', ''N'']"
  by (simp add: placeholders_def registry_fields)

theorem registry_params_cover_placeholders_witness:
  "hd templates \<in> set (templates :: nat list template list) \<and>
   params (hd templates) replay_randbelow [4] = Inr ([(''N'', PyInt 12)], []) \<and>
   fields (dedent (code (hd templates :: nat list template))) = Some [''N'', ''N''] \<and>
   set (placeholders (code (hd templates :: nat list template))) \<subseteq> fst ` set [(''N'', PyInt 12)]"
proof -
  have p: "params (hd templates) replay_randbelow [4] = Inr ([(''N'', PyInt 12)], [])"
    by (simp add: hd_templates params_fibonacci_iterative_def randint_def replay_randbelow_def)
  from registry_params_cover_placeholders [OF hd_templates(1) p]
  have "fields (dedent (code (hd templates :: nat list template)))
          = Some (placeholders (code (hd templates :: nat list template)))"
    and "set (placeholders (code (hd templates :: nat list template))) \<subseteq> fst ` set [(''N'', PyInt 12)]"
    by blast+
  with p hd_templates(1) show ?thesis
    by (simp add: hd_templates placeholders_fibonacci)
qed

lemma main_write_render_error:
  "render t (strftime_date (at_date clk)) ps = Inl e \<Longrightarrow>
     main_write t ps clk fs =
       (case mkdir_parents fs (OUT_DIR @ [strftime_year (at_year clk)]) of
          Inl e' \<Rightarrow> (Inl e', fs)
        | Inr fs1 \<Rightarrow> (Inl e, fs1))"
  by (simp add: main_write_def Let_def split: sum.splits)

text \<open>
  Claim C5. Rendering fails with \<^verbatim>\<open>KeyError\<close> whenever a placeholder of the code body
  has no entry in the parameter mapping, and the error is the result of the invocation:
  \<open>main_write\<close>, whose result \<open>main\<close> returns as it is, writes no file and no index line
  and ends with that error (after creating the year directory, which comes first).
\<close>

theorem missing_placeholder_fails:
  assumes "n \<in> set (placeholders (code t))" and "map_of ps n = None"
  shows "\<exists>m\<in>set (placeholders (code t)). map_of ps m = None \<and>
           render_body (code t) ps = Inl (KeyError m) \<and>
           render t (strftime_date (at_date clk)) ps = Inl (KeyError m) \<and>
           main_write t ps clk fs =
             (case mkdir_parents fs (OUT_DIR @ [strftime_year (at_year clk)]) of
                Inl e \<Rightarrow> (Inl e, fs)
              | Inr fs1 \<Rightarrow> (Inl (KeyError m), fs1))"
proof -
  from assms(1) have f: "fields (dedent (code t)) = Some (placeholders (code t))"
    by (cases "fields (dedent (code t))") (simp_all add: placeholders_def)
  from assms have "\<exists>n\<in>set (placeholders (code t)). map_of ps n = None" by blast
  from fields_format_missing [OF f this] obtain m where
    m: "m \<in> set (placeholders (code t))" "map_of ps m = None"
    and e: "py_format (map_of ps) (dedent (code t)) = Inl (KeyError m)"
    by blast
  from e have b: "render_body (code t) ps = Inl (KeyError m)"
    by (simp add: render_body_def)
  then have r: "render t (strftime_date (at_date clk)) ps = Inl (KeyError m)"
    by (simp add: render_def)
  from m b r main_write_render_error [OF r] show ?thesis
    by blast
qed

theorem missing_placeholder_fails_witness:
  "''N'' \<in> set (placeholders (code (hd templates :: nat list template))) \<and>
   map_of ([] :: (string \<times> pyval) list) ''N'' = None \<and>
   render_body (code (hd templates :: nat list template)) [] = Inl (KeyError ''N'')"
proof -
  have a: "''N'' \<in> set (placeholders (code (hd templates :: nat list template)))"
    by (simp add: hd_templates placeholders_fibonacci)
  have b: "map_of ([] :: (string \<times> pyval) list) ''N'' = None"
    by simp
  from missing_placeholder_fails [OF a b] obtain m where
    "m \<in> set (placeholders (code (hd templates :: nat list template)))"
    and "render_body (code (hd templates :: nat list template)) [] = Inl (KeyError m)"
    by blast
  then have "render_body (code (hd templates :: nat list template)) [] = Inl (KeyError ''N'')"
    by (simp add: hd_templates placeholders_fibonacci)
  with a b show ?thesis by blast
qed

lemma is_digit_not_special:
  "is_digit c \<Longrightarrow> c \<noteq> CHR ''{'' \<and> c \<noteq> CHR 0x0A \<and> c \<noteq> CHR ''/''"
  by (auto simp: is_digit_def)

lemma strftime_date_chars:
  "c \<in> set (strftime_date d) \<Longrightarrow> is_digit c \<or> c = CHR ''-''"
  using zfill_digits [of 4 "year d"] zfill_digits [of 2 "month d"] zfill_digits [of 2 "day d"]
  by (auto simp: strftime_date_def list_all_iff)






lemma join_with_chars:
  "c \<in> set (join_with sep xs) \<Longrightarrow> c \<in> set sep \<or> (\<exists>x\<in>set xs. c \<in> set x)"
  by (induction sep xs rule: join_with.induct) auto












lemma find_free_free: "\<not> path_exists fs (find_free fs yd d sl p c)"
proof (induction fs yd d sl p c rule: find_free.induct)
  case (1 fs yd d sl p c)
  then show ?case
    by (cases "path_exists fs p") (simp_all add: find_free.simps [of fs yd d sl p c])
qed

lemma find_free_first: "\<not> path_exists fs p \<Longrightarrow> find_free fs yd d sl p c = p"
  by (simp add: find_free.simps [of fs yd d sl p c])

lemma find_free_next:
  "path_exists fs p \<Longrightarrow>
     find_free fs yd d sl p c = find_free fs yd d sl (yd @ [versioned_name d sl c]) (Suc c)"
  by (simp add: find_free.simps [of fs yd d sl p c])

lemma find_free_search:
  "path_exists fs p \<Longrightarrow>
     \<exists>k\<ge>c. find_free fs yd d sl p c = yd @ [versioned_name d sl k] \<and>
       (\<forall>j. c \<le> j \<and> j < k \<longrightarrow> path_exists fs (yd @ [versioned_name d sl j]))"
proof (induction fs yd d sl p c rule: find_free.induct)
  case (1 fs yd d sl p c)
  let ?v = "yd @ [versioned_name d sl c]"
  from "1.prems" have step: "find_free fs yd d sl p c = find_free fs yd d sl ?v (Suc c)"
    by (rule find_free_next)
  show ?case
  proof (cases "path_exists fs ?v")
    case False
    then have "find_free fs yd d sl ?v (Suc c) = ?v"
      by (rule find_free_first)
    with step have "find_free fs yd d sl p c = yd @ [versioned_name d sl c] \<and>
        (\<forall>j. c \<le> j \<and> j < c \<longrightarrow> path_exists fs (yd @ [versioned_name d sl j]))"
      by auto
    then show ?thesis by blast
  next
    case True
    from "1.IH" [OF "1.prems" True] obtain k where k: "Suc c \<le> k"
      "find_free fs yd d sl ?v (c + 1) = yd @ [versioned_name d sl k]"
      "\<forall>j. Suc c \<le> j \<and> j < k \<longrightarrow> path_exists fs (yd @ [versioned_name d sl j])"
      by auto
    have "path_exists fs (yd @ [versioned_name d sl j])" if "c \<le> j" "j < k" for j
    proof (cases "j = c")
      case True
      with \<open>path_exists fs ?v\<close> show ?thesis by simp
    next
      case False
      with that k(3) show ?thesis by simp
    qed
    with k step show ?thesis
      by (intro exI [of _ k]) simp
  qed
qed

lemma find_free_in_dir:
  "\<exists>nm. find_free fs yd d sl (yd @ [b]) c = yd @ [nm]"
proof (cases "path_exists fs (yd @ [b])")
  case True
  from find_free_search [OF this] show ?thesis by blast
next
  case False
  then show ?thesis by (simp add: find_free_first)
qed

lemma year_not_readme: "strftime_year d \<noteq> ''README.md''"
proof
  assume "strftime_year d = ''README.md''"
  then have "list_all is_digit ''README.md''"
    using zfill_digits [of 4 "year d"] by (simp add: strftime_year_def)
  then show False by (simp add: is_digit_def)
qed

lemma mkdir_year_index:
  "mkdir_parents fs (OUT_DIR @ [strftime_year d]) = Inr fs1 \<Longrightarrow>
     node_at fs1 index_path = node_at fs index_path"
proof (rule ccontr)
  assume m: "mkdir_parents fs (OUT_DIR @ [strftime_year d]) = Inr fs1"
    and "node_at fs1 index_path \<noteq> node_at fs index_path"
  from mkdir_parents_changes [OF this] year_not_readme [of d] show False
    by (simp add: index_path_def OUT_DIR_def)
qed

lemma mkdir_year_deep:
  "mkdir_parents fs (OUT_DIR @ [y]) = Inr fs1 \<Longrightarrow> node_at fs1 (OUT_DIR @ [y, nm]) = node_at fs (OUT_DIR @ [y, nm])"
proof (rule ccontr)
  assume m: "mkdir_parents fs (OUT_DIR @ [y]) = Inr fs1"
    and "node_at fs1 (OUT_DIR @ [y, nm]) \<noteq> node_at fs (OUT_DIR @ [y, nm])"
  from mkdir_parents_changes [OF this] show False
    by (simp add: OUT_DIR_def)
qed

lemma main_write_Inr:
  assumes "main_write t ps clk fs = (Inr p, fs')"
  shows "\<exists>fs1 fs2 text.
      mkdir_parents fs (OUT_DIR @ [strftime_year (at_year clk)]) = Inr fs1 \<and>
      p = find_free fs1 (OUT_DIR @ [strftime_year (at_year clk)]) (strftime_date (at_date clk))
            (slugify (name t))
            ((OUT_DIR @ [strftime_year (at_year clk)])
               @ [strftime_date (at_date clk) @ ''_'' @ slugify (name t) @ ''.py'']) 2 \<and>
      render t (strftime_date (at_date clk)) ps = Inr text \<and>
      write_text fs1 p text = Inr fs2 \<and>
      append_text fs2 index_path (index_line p (name t) (desc t) (at_index clk)) = Inr fs'"
  using assms
  by (simp add: main_write_def Let_def update_index_def split: sum.splits prod.splits)

lemma main_write_Inl_index:
  assumes "main_write t ps clk fs = (Inl e, fs')"
  shows "node_at fs' index_path = node_at fs index_path"
proof -
  let ?yd = "OUT_DIR @ [strftime_year (at_year clk)]"
  let ?ds = "strftime_date (at_date clk)"
  show ?thesis
  proof (cases "mkdir_parents fs ?yd")
    case (Inl x)
    with assms show ?thesis by (simp add: main_write_def Let_def)
  next
    case (Inr fs1)
    note i1 = mkdir_year_index [OF Inr]
    let ?p = "find_free fs1 ?yd ?ds (slugify (name t)) (?yd @ [?ds @ ''_'' @ slugify (name t) @ ''.py'']) 2"
    from find_free_in_dir [of fs1 ?yd ?ds "slugify (name t)"] obtain nm where "?p = ?yd @ [nm]"
      by blast
    then have ne: "index_path \<noteq> ?p" by (simp add: index_path_def OUT_DIR_def)
    show ?thesis
    proof (cases "render t ?ds ps")
      case (Inl x)
      with assms Inr i1 show ?thesis by (simp add: main_write_def Let_def)
    next
      case rendered: (Inr content)
      show ?thesis
      proof (cases "write_text fs1 ?p content")
        case (Inl x)
        with assms Inr rendered i1 show ?thesis by (simp add: main_write_def Let_def)
      next
        case fs2: (Inr fs2)
        from write_text_effect [OF fs2, of index_path] ne i1
        have i2: "node_at fs2 index_path = node_at fs index_path" by simp
        from assms Inr rendered fs2 have "fs' = fs2"
          by (auto simp: main_write_def Let_def update_index_def split: sum.splits)
        with i2 show ?thesis by simp
      qed
    qed
  qed
qed

lemma main_write_Inr_index:
  assumes "main_write t ps clk fs = (Inr p, fs')"
  shows "node_at fs' index_path =
           Some (File ((case node_at fs index_path of Some (File c) \<Rightarrow> c | _ \<Rightarrow> [])
                       @ index_line p (name t) (desc t) (at_index clk)))"
    and "\<exists>nm. p = OUT_DIR @ [strftime_year (at_year clk), nm]"
proof -
  let ?yd = "OUT_DIR @ [strftime_year (at_year clk)]"
  from main_write_Inr [OF assms] obtain fs1 fs2 content where
    m: "mkdir_parents fs ?yd = Inr fs1"
    and p: "p = find_free fs1 ?yd (strftime_date (at_date clk)) (slugify (name t))
            (?yd @ [strftime_date (at_date clk) @ ''_'' @ slugify (name t) @ ''.py'']) 2"
    and w: "write_text fs1 p content = Inr fs2"
    and a: "append_text fs2 index_path (index_line p (name t) (desc t) (at_index clk)) = Inr fs'"
    by blast
  from p find_free_in_dir [of fs1 ?yd "strftime_date (at_date clk)" "slugify (name t)"]
  obtain nm where nm: "p = ?yd @ [nm]" by auto
  then show "\<exists>nm. p = OUT_DIR @ [strftime_year (at_year clk), nm]" by simp
  from nm have ne: "index_path \<noteq> p" by (simp add: index_path_def OUT_DIR_def)
  from write_text_effect [OF w, of index_path] ne mkdir_year_index [OF m]
  have "node_at fs2 index_path = node_at fs index_path" by simp
  with append_text_effect [OF a, of index_path]
  show "node_at fs' index_path =
           Some (File ((case node_at fs index_path of Some (File c) \<Rightarrow> c | _ \<Rightarrow> [])
                       @ index_line p (name t) (desc t) (at_index clk)))"
    by simp
qed

lemma strftime_stamp_no_newline: "CHR 0x0A \<notin> set (strftime_stamp d)"
  using zfill_digits [of 2 "hour d"] zfill_digits [of 2 "minute d"]
  by (auto simp: strftime_stamp_def list_all_iff dest!: strftime_date_chars is_digit_not_special)

lemma strftime_year_no_newline: "CHR 0x0A \<notin> set (strftime_year d)"
  using zfill_digits [of 4 "year d"]
  by (auto simp: strftime_year_def list_all_iff dest!: is_digit_not_special)

lemma sub_runs_chars: "c \<in> set (sub_runs b s) \<Longrightarrow> is_slug_char c"
proof (induction b s rule: sub_runs.induct)
  case (1 in_run)
  then show ?case by simp
next
  case (2 in_run a cs)
  have "is_slug_char (CHR ''_'')" by (simp add: is_slug_char_def)
  with 2 show ?case by (auto split: if_splits)
qed

lemma slugify_no_newline: "CHR 0x0A \<notin> set (slugify nm)"
proof
  assume "CHR 0x0A \<in> set (slugify nm)"
  then have "is_slug_char (CHR 0x0A)"
    unfolding slugify_def by (rule sub_runs_chars)
  then show False by (simp add: is_slug_char_def)
qed

lemma str_nat_no_newline: "CHR 0x0A \<notin> set (str_nat n)"
  using str_nat_digits [of n] by (auto simp: list_all_iff dest!: is_digit_not_special)

lemma find_free_no_newline:
  "CHR 0x0A \<notin> set b \<Longrightarrow> \<exists>nm. find_free fs yd (strftime_date d) (slugify sl) (yd @ [b]) c = yd @ [nm] \<and>
     CHR 0x0A \<notin> set nm"
proof (cases "path_exists fs (yd @ [b])")
  case False
  assume "CHR 0x0A \<notin> set b"
  with False show ?thesis by (simp add: find_free_first)
next
  case True
  from find_free_search [where c = c and d = "strftime_date d" and sl = "slugify sl", OF this]
  obtain k where "find_free fs yd (strftime_date d) (slugify sl) (yd @ [b]) c
      = yd @ [versioned_name (strftime_date d) (slugify sl) k]"
    by blast
  moreover have "CHR 0x0A \<notin> set (versioned_name (strftime_date d) (slugify sl) k)"
    using slugify_no_newline [of sl] str_nat_no_newline [of k]
    by (auto simp: versioned_name_def dest!: strftime_date_chars is_digit_not_special)
  ultimately show ?thesis by blast
qed

lemma registry_no_newline:
  assumes "t \<in> set templates"
  shows "CHR 0x0A \<notin> set (name t)" and "CHR 0x0A \<notin> set (desc t)"
  using assms by (cases t rule: template_cases; simp)+

lemma index_line_one_line:
  assumes "CHR 0x0A \<notin> set nm" and "CHR 0x0A \<notin> set dsc"
    and "\<forall>x\<in>set p. CHR 0x0A \<notin> set x"
  shows "\<exists>b. index_line p nm dsc now = b @ [CHR 0x0A] \<and> CHR 0x0A \<notin> set b"
proof -
  let ?b = "''- '' @ strftime_stamp now @ '': ['' @ nm @ '']('' @ as_posix p @ '') '' @
     written_separator @ '' '' @ dsc"
  have "CHR 0x0A \<notin> set (as_posix p)"
    using assms(3) by (auto simp: as_posix_def dest!: join_with_chars)
  with assms(1,2) strftime_stamp_no_newline [of now] have "CHR 0x0A \<notin> set ?b"
    by (simp add: written_separator_def)
  moreover have "index_line p nm dsc now = ?b @ [CHR 0x0A]"
    by (simp add: index_line_def)
  ultimately show ?thesis by blast
qed

lemma append_text_not_dir:
  "append_text fs p t = Inr fs' \<Longrightarrow> node_at fs p \<noteq> Some Dir"
  by (auto simp: append_text_def)

lemma main_write_line:
  assumes "main_write t ps clk fs = (Inr p, fs')" and "t \<in> set templates"
  shows "\<exists>b. index_line p (name t) (desc t) (at_index clk) = b @ [CHR 0x0A] \<and> CHR 0x0A \<notin> set b"
    and "node_at fs index_path \<noteq> Some Dir"
proof -
  let ?yd = "OUT_DIR @ [strftime_year (at_year clk)]"
  let ?ds = "strftime_date (at_date clk)"
  from main_write_Inr [OF assms(1)] obtain fs1 fs2 content where
    m: "mkdir_parents fs ?yd = Inr fs1"
    and p: "p = find_free fs1 ?yd ?ds (slugify (name t))
            (?yd @ [?ds @ ''_'' @ slugify (name t) @ ''.py'']) 2"
    and w: "write_text fs1 p content = Inr fs2"
    and a: "append_text fs2 index_path (index_line p (name t) (desc t) (at_index clk)) = Inr fs'"
    by blast
  have "CHR 0x0A \<notin> set (?ds @ ''_'' @ slugify (name t) @ ''.py'')"
    using slugify_no_newline [of "name t"]
    by (auto dest!: strftime_date_chars is_digit_not_special)
  from find_free_no_newline [where fs = fs1 and yd = "?yd" and d = "at_date clk" and sl = "name t"
      and c = 2, OF this] p
  obtain nm where nm: "p = ?yd @ [nm]" "CHR 0x0A \<notin> set nm" by auto
  with strftime_year_no_newline [of "at_year clk"] have "\<forall>x\<in>set p. CHR 0x0A \<notin> set x"
    by (simp add: OUT_DIR_def)
  from index_line_one_line [OF registry_no_newline [OF assms(2)] this]
  show "\<exists>b. index_line p (name t) (desc t) (at_index clk) = b @ [CHR 0x0A] \<and> CHR 0x0A \<notin> set b" .
  from nm have ne: "index_path \<noteq> p" by (simp add: index_path_def OUT_DIR_def)
  from write_text_effect [OF w, of index_path] ne mkdir_year_index [OF m]
  have "node_at fs2 index_path = node_at fs index_path" by simp
  with append_text_not_dir [OF a] show "node_at fs index_path \<noteq> Some Dir" by simp
qed

lemma morning_formats:
  "strftime_year morning = ''2024''" "strftime_date morning = ''2024-01-01''"
  "strftime_stamp morning = ''2024-01-01 06:30 UTC''"
  by (simp_all add: strftime_year_def strftime_date_def strftime_stamp_def morning_def zfill_def
      str_nat.simps digit_char_def)

lemma morning_seed: "today_seed morning = Inr 20240101"
  using today_seed_value [of morning] by (simp add: morning_def)

lemma slugify_fibonacci: "slugify ''fibonacci_iterative'' = ''fibonacci_iterative''"
  by code_simp

lemma ensure_index_empty:
  "ensure_index fmempty =
     (Inr (), fmupd index_path (File index_header)
                (fmupd (OUT_DIR @ [''.gitkeep'']) (File []) (fmupd OUT_DIR Dir fmempty)))"
  by (simp add: ensure_index_def mkdir_parents.simps touch_def create_def write_text_def
      path_exists_def node_at_def OUT_DIR_def index_path_def)

lemma draw_selection_example:
  "draw_selection replay_randbelow [0, 4] = Inr (hd templates, [(''N'', PyInt 12)])"
  by (simp add: draw_selection_def pick_template_def choice_def replay_randbelow_def templates_def
      params_fibonacci_iterative_def randint_def)

section \<open>Effect of a run on the file system\<close>

lemma find_free_cong:
  assumes agree: "\<And>nm. path_exists fsA (yd @ [nm]) = path_exists fsB (yd @ [nm])"
  shows "find_free fsA yd d sl (yd @ [b]) c = find_free fsB yd d sl (yd @ [b]) c"
proof (cases "path_exists fsA (yd @ [b])")
  case False
  with agree [of b] show ?thesis by (simp add: find_free_first)
next
  case True
  with agree [of b] have trueB: "path_exists fsB (yd @ [b])" by simp
  let ?v = "\<lambda>k. yd @ [versioned_name d sl k]"
  from find_free_search [OF True, of c yd d sl] obtain i where
    i: "find_free fsA yd d sl (yd @ [b]) c = ?v i" "\<forall>j. c \<le> j \<and> j < i \<longrightarrow> path_exists fsA (?v j)" "c \<le> i"
    by blast
  from find_free_search [OF trueB, of c yd d sl] obtain k where
    k: "find_free fsB yd d sl (yd @ [b]) c = ?v k" "\<forall>j. c \<le> j \<and> j < k \<longrightarrow> path_exists fsB (?v j)" "c \<le> k"
    by blast
  from find_free_free [of fsA yd d sl "yd @ [b]" c] i(1) have freeA: "\<not> path_exists fsA (?v i)"
    by simp
  from find_free_free [of fsB yd d sl "yd @ [b]" c] k(1) have freeB: "\<not> path_exists fsB (?v k)"
    by simp
  have "i = k"
  proof (rule ccontr)
    assume "i \<noteq> k"
    then consider "i < k" | "k < i" by linarith
    then show False
    proof cases
      case 1
      with k(2) i(3) have "path_exists fsB (?v i)" by simp
      with agree freeA show False by simp
    next
      case 2
      with i(2) k(3) have "path_exists fsA (?v k)" by simp
      with agree freeB show False by simp
    qed
  qed
  with i(1) k(1) show ?thesis by simp
qed

lemma main_Inr:
  assumes "main sr rb clk fs = (Inr p, fs')"
  shows "\<exists>sd fsE t ps. today_seed (at_seed clk) = Inr sd \<and> ensure_index fs = (Inr (), fsE) \<and>
           draw_selection rb (sr sd) = Inr (t, ps) \<and> selection sr rb (at_seed clk) = Inr (t, ps) \<and>
           t \<in> set templates \<and> main_write t ps clk fsE = (Inr p, fs')"
proof -
  from assms obtain sd where sd: "today_seed (at_seed clk) = Inr sd"
    by (cases "today_seed (at_seed clk)") (auto simp: main_def)
  obtain r fsE where e: "ensure_index fs = (r, fsE)" by (cases "ensure_index fs")
  with assms sd have r: "r = Inr ()"
    by (cases r) (auto simp: main_def)
  from assms sd e r obtain t ps where d: "draw_selection rb (sr sd) = Inr (t, ps)"
    by (cases "draw_selection rb (sr sd)") (auto simp: main_def)
  with assms sd e r have w: "main_write t ps clk fsE = (Inr p, fs')"
    by (simp add: main_def)
  from d sd have "selection sr rb (at_seed clk) = Inr (t, ps)"
    by (simp add: selection_def)
  with sd e r d w draw_selection_Inr [OF d] show ?thesis by blast
qed

lemma ensure_index_deep:
  "ensure_index fs = (r, fsE) \<Longrightarrow> node_at fsE (OUT_DIR @ [y, nm]) = node_at fs (OUT_DIR @ [y, nm])"
proof (rule ccontr)
  assume "ensure_index fs = (r, fsE)"
    and "node_at fsE (OUT_DIR @ [y, nm]) \<noteq> node_at fs (OUT_DIR @ [y, nm])"
  from ensure_index_changes [OF this] show False
    by (simp add: OUT_DIR_def index_path_def)
qed

lemma main_write_effect:
  assumes "main_write t ps clk fs = (Inr p, fs')"
  shows "p = find_free fs (OUT_DIR @ [strftime_year (at_year clk)]) (strftime_date (at_date clk))
              (slugify (name t))
              ((OUT_DIR @ [strftime_year (at_year clk)])
                 @ [strftime_date (at_date clk) @ ''_'' @ slugify (name t) @ ''.py'']) 2"
    and "\<not> path_exists fs p"
    and "\<exists>content. node_at fs' p = Some (File content)"
    and "\<And>q n. node_at fs q = Some n \<Longrightarrow> q \<noteq> index_path \<Longrightarrow> node_at fs' q = Some n"
    and "\<And>nm. OUT_DIR @ [strftime_year (at_year clk), nm] \<noteq> p \<Longrightarrow>
           node_at fs' (OUT_DIR @ [strftime_year (at_year clk), nm])
             = node_at fs (OUT_DIR @ [strftime_year (at_year clk), nm])"
proof -
  let ?yd = "OUT_DIR @ [strftime_year (at_year clk)]"
  let ?ds = "strftime_date (at_date clk)"
  let ?base = "?yd @ [?ds @ ''_'' @ slugify (name t) @ ''.py'']"
  from main_write_Inr [OF assms] obtain fs1 fs2 content where
    m: "mkdir_parents fs ?yd = Inr fs1"
    and p: "p = find_free fs1 ?yd ?ds (slugify (name t)) ?base 2"
    and w: "write_text fs1 p content = Inr fs2"
    and a: "append_text fs2 index_path (index_line p (name t) (desc t) (at_index clk)) = Inr fs'"
    by blast
  have deep: "node_at fs1 (?yd @ [nm]) = node_at fs (?yd @ [nm])" for nm
    using mkdir_year_deep [OF m, of nm] by simp
  then have "path_exists fs1 (?yd @ [nm]) = path_exists fs (?yd @ [nm])" for nm
    by (simp add: path_exists_def)
  from find_free_cong [of fs1 ?yd fs, OF this] p
  show p': "p = find_free fs ?yd ?ds (slugify (name t)) ?base 2" by simp
  then show free: "\<not> path_exists fs p" by (simp add: find_free_free)
  from main_write_Inr_index(2) [OF assms] obtain nm0 where nm0: "p = ?yd @ [nm0]" by auto
  then have ne: "p \<noteq> index_path" by (simp add: index_path_def OUT_DIR_def)
  from write_text_effect [OF w, of p] have "node_at fs2 p = Some (File content)" by simp
  with append_text_effect [OF a, of p] ne
  show "\<exists>content. node_at fs' p = Some (File content)" by simp
  show "node_at fs' q = Some n" if q: "node_at fs q = Some n" "q \<noteq> index_path" for q n
  proof -
    from mkdir_parents_keeps [OF m q(1)] have q1: "node_at fs1 q = Some n" .
    from q(1) free have "q \<noteq> p" by (auto simp: path_exists_def)
    with write_text_effect [OF w, of q] q1 have "node_at fs2 q = Some n" by simp
    with append_text_effect [OF a, of q] q(2) show ?thesis by simp
  qed
  show "node_at fs' (OUT_DIR @ [strftime_year (at_year clk), nm])
      = node_at fs (OUT_DIR @ [strftime_year (at_year clk), nm])"
    if "OUT_DIR @ [strftime_year (at_year clk), nm] \<noteq> p" for nm
  proof -
    let ?q = "OUT_DIR @ [strftime_year (at_year clk), nm]"
    have qi: "?q \<noteq> index_path" by (simp add: index_path_def OUT_DIR_def)
    from deep [of nm] have "node_at fs1 ?q = node_at fs ?q" by simp
    with write_text_effect [OF w, of ?q] that have "node_at fs2 ?q = node_at fs ?q" by simp
    with append_text_effect [OF a, of ?q] qi show ?thesis by simp
  qed
qed

lemma main_effect:
  assumes "main sr rb clk fs = (Inr p, fs')"
  shows "\<exists>t ps. selection sr rb (at_seed clk) = Inr (t, ps) \<and> t \<in> set templates \<and>
      p = find_free fs (OUT_DIR @ [strftime_year (at_year clk)]) (strftime_date (at_date clk))
              (slugify (name t))
              ((OUT_DIR @ [strftime_year (at_year clk)])
                 @ [strftime_date (at_date clk) @ ''_'' @ slugify (name t) @ ''.py'']) 2"
    and "\<not> path_exists fs p"
    and "\<exists>content. node_at fs' p = Some (File content)"
    and "\<And>q n. node_at fs q = Some n \<Longrightarrow> q \<noteq> index_path \<Longrightarrow> node_at fs' q = Some n"
    and "\<And>nm. OUT_DIR @ [strftime_year (at_year clk), nm] \<noteq> p \<Longrightarrow>
           node_at fs' (OUT_DIR @ [strftime_year (at_year clk), nm])
             = node_at fs (OUT_DIR @ [strftime_year (at_year clk), nm])"
proof -
  let ?yd = "OUT_DIR @ [strftime_year (at_year clk)]"
  from main_Inr [OF assms] obtain sd fsE t ps where
    e: "ensure_index fs = (Inr (), fsE)" and s: "selection sr rb (at_seed clk) = Inr (t, ps)"
    and t: "t \<in> set templates" and w: "main_write t ps clk fsE = (Inr p, fs')"
    by blast
  note eff = main_write_effect [OF w]
  have deep: "node_at fsE (?yd @ [nm]) = node_at fs (?yd @ [nm])" for nm
    using ensure_index_deep [OF e, of "strftime_year (at_year clk)" nm] by simp
  then have agree: "path_exists fsE (?yd @ [nm]) = path_exists fs (?yd @ [nm])" for nm
    by (simp add: path_exists_def)
  from find_free_cong [of fsE ?yd fs, OF agree] eff(1)
  have p: "p = find_free fs ?yd (strftime_date (at_date clk)) (slugify (name t))
      (?yd @ [strftime_date (at_date clk) @ ''_'' @ slugify (name t) @ ''.py'']) 2"
    by simp
  with s t show "\<exists>t ps. selection sr rb (at_seed clk) = Inr (t, ps) \<and> t \<in> set templates \<and>
      p = find_free fs ?yd (strftime_date (at_date clk)) (slugify (name t))
              (?yd @ [strftime_date (at_date clk) @ ''_'' @ slugify (name t) @ ''.py'']) 2"
    by blast
  from p show "\<not> path_exists fs p" by (simp add: find_free_free)
  from eff(3) show "\<exists>content. node_at fs' p = Some (File content)" .
  show "node_at fs' q = Some n" if q: "node_at fs q = Some n" "q \<noteq> index_path" for q n
    using eff(4) [OF ensure_index_keeps [OF e q(1)] q(2)] .
  show "node_at fs' (OUT_DIR @ [strftime_year (at_year clk), nm])
      = node_at fs (OUT_DIR @ [strftime_year (at_year clk), nm])"
    if "OUT_DIR @ [strftime_year (at_year clk), nm] \<noteq> p" for nm
    using eff(5) [OF that] deep [of nm] by simp
qed

section \<open>The two example runs\<close>

lemma main_write_ok:
  assumes m: "mkdir_parents fs (OUT_DIR @ [strftime_year (at_year clk)]) = Inr fs1"
    and r: "render t (strftime_date (at_date clk)) ps = Inr content"
    and i: "node_at fs index_path = Some (File c)"
    and p: "find_free fs1 (OUT_DIR @ [strftime_year (at_year clk)]) (strftime_date (at_date clk))
              (slugify (name t))
              ((OUT_DIR @ [strftime_year (at_year clk)])
                 @ [strftime_date (at_date clk) @ ''_'' @ slugify (name t) @ ''.py'']) 2 = p"
  shows "main_write t ps clk fs =
           (Inr p, fmupd index_path (File (c @ index_line p (name t) (desc t) (at_index clk)))
                     (fmupd p (File content) fs1))"
proof -
  let ?yd = "OUT_DIR @ [strftime_year (at_year clk)]"
  from p find_free_in_dir [of fs1 ?yd "strftime_date (at_date clk)" "slugify (name t)"]
  obtain nm where nm: "p = ?yd @ [nm]" by auto
  then have ne: "index_path \<noteq> p" "p \<noteq> []" by (simp_all add: index_path_def OUT_DIR_def)
  from p find_free_free [of fs1 ?yd "strftime_date (at_date clk)" "slugify (name t)"]
  have free: "node_at fs1 p = None" by (auto simp: path_exists_def)
  from nm have "butlast p = ?yd" by (simp add: butlast_append)
  with mkdir_parents_effect [OF m, of p] have "node_at fs1 (butlast p) = Some Dir" by simp
  with free have w: "write_text fs1 p content = Inr (fmupd p (File content) fs1)"
    by (simp add: write_text_def create_def)
  from mkdir_year_index [OF m] i ne
  have "node_at (fmupd p (File content) fs1) index_path = Some (File c)"
    by (simp add: node_at_fmupd)
  then have a: "append_text (fmupd p (File content) fs1) index_path
                  (index_line p (name t) (desc t) (at_index clk))
      = Inr (fmupd index_path (File (c @ index_line p (name t) (desc t) (at_index clk)))
               (fmupd p (File content) fs1))"
    by (simp add: append_text_def)
  show ?thesis
    by (simp only: main_write_def Let_def m r p w a update_index_def sum.case prod.case)
qed

lemma main_ok:
  assumes "today_seed (at_seed clk) = Inr sd" and "ensure_index fs = (Inr (), fsE)"
    and "draw_selection rb (sr sd) = Inr (t, ps)"
  shows "main sr rb clk fs = main_write t ps clk fsE"
  unfolding main_def by (simp add: assms)

lemma evening_formats:
  "strftime_year evening = ''2024''" "strftime_date evening = ''2024-01-01''"
  "strftime_stamp evening = ''2024-01-01 23:59 UTC''"
  by (simp_all add: strftime_year_def strftime_date_def strftime_stamp_def evening_def zfill_def
      str_nat.simps digit_char_def)

lemma evening_seed: "today_seed evening = Inr 20240101"
  using today_seed_value [of evening] by (simp add: evening_def)

lemma render_example:
  "\<exists>content. render (hd templates) ''2024-01-01'' [(''N'', PyInt 12)] = Inr content"
  using render_ok [of "hd templates" "[''N'', ''N'']" "[(''N'', PyInt 12)]" "''2024-01-01''"]
  by (simp add: hd_templates registry_fields)

lemma first_run_result:
  "\<exists>content. first_run =
     (Inr example_path,
      fmupd index_path (File (index_header @ example_line morning example_path))
        (fmupd example_path (File content)
          (fmupd [''daily_code'', ''2024''] Dir
            (fmupd index_path (File index_header)
              (fmupd (OUT_DIR @ [''.gitkeep'']) (File []) (fmupd OUT_DIR Dir fmempty))))))"
proof -
  let ?fsE = "fmupd index_path (File index_header)
                (fmupd (OUT_DIR @ [''.gitkeep'']) (File []) (fmupd OUT_DIR Dir fmempty))"
  let ?clk = "fixed_clock morning"
  let ?fs1 = "fmupd [''daily_code'', ''2024''] Dir ?fsE"
  from render_example obtain content where
    r: "render (hd templates :: nat list template) ''2024-01-01'' [(''N'', PyInt 12)] = Inr content" by blast
  have yd: "OUT_DIR @ [strftime_year (at_year ?clk)] = [''daily_code'', ''2024'']"
    by (simp add: fixed_clock_def morning_formats OUT_DIR_def)
  have ds: "strftime_date (at_date ?clk) = ''2024-01-01''"
    by (simp add: fixed_clock_def morning_formats)
  have m: "mkdir_parents ?fsE (OUT_DIR @ [strftime_year (at_year ?clk)]) = Inr ?fs1"
    unfolding yd by (simp add: mkdir_parents.simps node_at_def OUT_DIR_def index_path_def)
  have i: "node_at ?fsE index_path = Some (File index_header)"
    by (simp add: node_at_def index_path_def OUT_DIR_def)
  have "\<not> path_exists ?fs1 example_path"
    by (simp add: path_exists_def node_at_def example_path_def index_path_def OUT_DIR_def)
  then have p: "find_free ?fs1 (OUT_DIR @ [strftime_year (at_year ?clk)]) (strftime_date (at_date ?clk))
              (slugify (name (hd templates :: nat list template)))
              ((OUT_DIR @ [strftime_year (at_year ?clk)])
                 @ [strftime_date (at_date ?clk) @ ''_'' @ slugify (name (hd templates :: nat list template)) @ ''.py'']) 2
            = example_path"
    unfolding yd ds by (simp add: hd_templates slugify_fibonacci example_path_def find_free_first)
  from r have r': "render (hd templates :: nat list template) (strftime_date (at_date ?clk)) [(''N'', PyInt 12)] = Inr content"
    by (simp add: ds)
  have "main example_seed replay_randbelow ?clk fmempty
      = main_write (hd templates :: nat list template) [(''N'', PyInt 12)] ?clk ?fsE"
    by (rule main_ok [where sd = 20240101])
      (simp_all add: fixed_clock_def morning_seed ensure_index_empty example_seed_def
        draw_selection_example)
  also note main_write_ok [OF m r' i p]
  finally show ?thesis
    by (auto simp add: first_run_def example_line_def hd_templates fixed_clock_def)
qed

lemma second_run_result:
  "\<exists>content. second_run =
     (Inr example_path_v2,
      fmupd index_path (File (index_header @ example_line morning example_path
                                @ example_line evening example_path_v2))
        (fmupd example_path_v2 (File content) (snd first_run)))"
proof -
  from first_run_result obtain content where f: "first_run =
     (Inr example_path,
      fmupd index_path (File (index_header @ example_line morning example_path))
        (fmupd example_path (File content)
          (fmupd [''daily_code'', ''2024''] Dir
            (fmupd index_path (File index_header)
              (fmupd (OUT_DIR @ [''.gitkeep'']) (File []) (fmupd OUT_DIR Dir fmempty))))))"
    by blast
  let ?fsA = "snd first_run"
  let ?clk = "fixed_clock evening"
  from render_example obtain content2 where
    r: "render (hd templates :: nat list template) ''2024-01-01'' [(''N'', PyInt 12)] = Inr content2" by blast
  have yd: "OUT_DIR @ [strftime_year (at_year ?clk)] = [''daily_code'', ''2024'']"
    by (simp add: fixed_clock_def evening_formats OUT_DIR_def)
  have ds: "strftime_date (at_date ?clk) = ''2024-01-01''"
    by (simp add: fixed_clock_def evening_formats)
  have nodes: "node_at ?fsA OUT_DIR = Some Dir" "path_exists ?fsA (OUT_DIR @ [''.gitkeep''])"
    "path_exists ?fsA index_path" "node_at ?fsA [''daily_code'', ''2024''] = Some Dir"
    "path_exists ?fsA example_path" "\<not> path_exists ?fsA example_path_v2"
    "node_at ?fsA index_path = Some (File (index_header @ example_line morning example_path))"
    by (simp_all add: f path_exists_def node_at_def example_path_def example_path_v2_def
        index_path_def OUT_DIR_def)
  have e: "ensure_index ?fsA = (Inr (), ?fsA)"
    using nodes(1-3) by (rule ensure_index_fixed)
  have m: "mkdir_parents ?fsA (OUT_DIR @ [strftime_year (at_year ?clk)]) = Inr ?fsA"
    unfolding yd using nodes(4) by (rule mkdir_parents_dir)
  have v: "[''daily_code'', ''2024''] @ [versioned_name ''2024-01-01'' ''fibonacci_iterative'' 2]
      = example_path_v2"
    by (simp add: versioned_name_def str_nat.simps digit_char_def example_path_v2_def)
  have b: "[''daily_code'', ''2024''] @ [''2024-01-01'' @ ''_'' @ ''fibonacci_iterative'' @ ''.py'']
      = example_path"
    by (simp add: example_path_def)
  have p0: "find_free ?fsA [''daily_code'', ''2024''] ''2024-01-01'' ''fibonacci_iterative''
              example_path 2 = example_path_v2"
  proof -
    have "find_free ?fsA [''daily_code'', ''2024''] ''2024-01-01'' ''fibonacci_iterative''
              example_path 2
        = find_free ?fsA [''daily_code'', ''2024''] ''2024-01-01'' ''fibonacci_iterative''
            ([''daily_code'', ''2024''] @ [versioned_name ''2024-01-01'' ''fibonacci_iterative'' 2])
            (Suc 2)"
      using nodes(5) by (rule find_free_next)
    also have "\<dots> = find_free ?fsA [''daily_code'', ''2024''] ''2024-01-01''
            ''fibonacci_iterative'' example_path_v2 (Suc 2)"
      by (simp only: v)
    also have "\<dots> = example_path_v2"
      using nodes(6) by (rule find_free_first)
    finally show ?thesis .
  qed
  have p: "find_free ?fsA (OUT_DIR @ [strftime_year (at_year ?clk)]) (strftime_date (at_date ?clk))
              (slugify (name (hd templates :: nat list template)))
              ((OUT_DIR @ [strftime_year (at_year ?clk)])
                 @ [strftime_date (at_date ?clk) @ ''_'' @ slugify (name (hd templates :: nat list template)) @ ''.py'']) 2
            = example_path_v2"
    unfolding yd ds hd_templates slugify_fibonacci b by (rule p0)
  from r have r': "render (hd templates :: nat list template) (strftime_date (at_date ?clk)) [(''N'', PyInt 12)] = Inr content2"
    by (simp add: ds)
  have "main example_seed replay_randbelow ?clk ?fsA
      = main_write (hd templates :: nat list template) [(''N'', PyInt 12)] ?clk ?fsA"
    by (rule main_ok [where sd = 20240101])
      (simp_all add: fixed_clock_def evening_seed e example_seed_def draw_selection_example)
  also note main_write_ok [OF m r' nodes(7) p]
  finally show ?thesis
    by (auto simp add: second_run_def example_line_def hd_templates fixed_clock_def)
qed

section \<open>The index file\<close>

lemma main_Inl_index:
  assumes "main sr rb clk fs = (Inl e, fs')"
  shows "node_at fs' index_path = node_at fs index_path \<or>
         (node_at fs index_path = None \<and> node_at fs' index_path = Some (File index_header))"
proof (cases "today_seed (at_seed clk)")
  case (Inl x)
  with assms show ?thesis by (simp add: main_def)
next
  case (Inr sd)
  obtain r1 fsE where en: "ensure_index fs = (r1, fsE)" by (cases "ensure_index fs")
  note ix = ensure_index_index [OF en]
  show ?thesis
  proof (cases r1)
    case (Inl x)
    with assms Inr en have "fs' = fsE" by (simp add: main_def)
    with ix show ?thesis by simp
  next
    case u: (Inr u)
    show ?thesis
    proof (cases "draw_selection rb (sr sd)")
      case (Inl x)
      with assms Inr en u have "fs' = fsE" by (simp add: main_def)
      with ix show ?thesis by simp
    next
      case sel: (Inr tp)
      obtain t ps where tp: "tp = (t, ps)" by (cases tp)
      with assms Inr en u sel have "main_write t ps clk fsE = (Inl e, fs')"
        by (simp add: main_def)
      from main_write_Inl_index [OF this] ix show ?thesis by simp
    qed
  qed
qed

lemma main_Inr_index:
  assumes "main sr rb clk fs = (Inr p, fs')"
  shows "\<exists>b. CHR 0x0A \<notin> set b \<and>
           node_at fs index_path \<noteq> Some Dir \<and>
           node_at fs' index_path =
             Some (File ((case node_at fs index_path of Some (File c) \<Rightarrow> c | _ \<Rightarrow> index_header)
                         @ b @ [CHR 0x0A]))"
proof -
  from main_Inr [OF assms] obtain sd fsE t ps where
    en: "ensure_index fs = (Inr (), fsE)" and "draw_selection rb (sr sd) = Inr (t, ps)"
    and t: "t \<in> set templates"
    and w: "main_write t ps clk fsE = (Inr p, fs')"
    by blast
  from main_write_line [OF w t] obtain b where
    b: "index_line p (name t) (desc t) (at_index clk) = b @ [CHR 0x0A]" "CHR 0x0A \<notin> set b"
    and nd: "node_at fsE index_path \<noteq> Some Dir"
    by blast
  from ensure_index_ok [OF en] have ex: "node_at fsE index_path \<noteq> None"
    by (simp add: path_exists_def)
  from ex nd obtain c where c: "node_at fsE index_path = Some (File c)"
    by (cases "node_at fsE index_path") (auto intro: node.exhaust)
  have "node_at fs index_path \<noteq> Some Dir \<and>
        (case node_at fs index_path of Some (File c) \<Rightarrow> c | _ \<Rightarrow> index_header) = c"
  proof (cases "node_at fs index_path = node_at fsE index_path")
    case True
    with c show ?thesis by simp
  next
    case False
    with ensure_index_index [OF en] c show ?thesis by auto
  qed
  with main_write_Inr_index(1) [OF w] c b show ?thesis by auto
qed

lemma first_run_facts:
  "fst first_run = Inr example_path"
  "node_at (snd first_run) index_path
     = Some (File (index_header @ example_line morning example_path))"
  "\<exists>content. node_at (snd first_run) example_path = Some (File content)"
  "node_at (snd first_run) example_path_v2 = None"
proof -
  from first_run_result obtain content where f: "first_run =
     (Inr example_path,
      fmupd index_path (File (index_header @ example_line morning example_path))
        (fmupd example_path (File content)
          (fmupd [''daily_code'', ''2024''] Dir
            (fmupd index_path (File index_header)
              (fmupd (OUT_DIR @ [''.gitkeep'']) (File []) (fmupd OUT_DIR Dir fmempty))))))"
    by blast
  show "fst first_run = Inr example_path" by (simp add: f)
  show "node_at (snd first_run) index_path
     = Some (File (index_header @ example_line morning example_path))"
    by (simp add: f node_at_def index_path_def OUT_DIR_def)
  show "\<exists>content. node_at (snd first_run) example_path = Some (File content)"
    by (simp add: f node_at_def index_path_def OUT_DIR_def example_path_def)
  show "node_at (snd first_run) example_path_v2 = None"
    by (simp add: f node_at_def index_path_def OUT_DIR_def example_path_def example_path_v2_def)
qed

lemma second_run_facts:
  "fst second_run = Inr example_path_v2"
  "node_at (snd second_run) index_path
     = Some (File (index_header @ example_line morning example_path
                     @ example_line evening example_path_v2))"
  "\<exists>content. node_at (snd second_run) example_path_v2 = Some (File content)"
  "node_at (snd second_run) example_path = node_at (snd first_run) example_path"
proof -
  from second_run_result obtain content where f: "second_run =
     (Inr example_path_v2,
      fmupd index_path (File (index_header @ example_line morning example_path
                                @ example_line evening example_path_v2))
        (fmupd example_path_v2 (File content) (snd first_run)))"
    by blast
  show "fst second_run = Inr example_path_v2" by (simp add: f)
  show "node_at (snd second_run) index_path
     = Some (File (index_header @ example_line morning example_path
                     @ example_line evening example_path_v2))"
    by (simp add: f node_at_def index_path_def OUT_DIR_def)
  show "\<exists>content. node_at (snd second_run) example_path_v2 = Some (File content)"
    by (simp add: f node_at_def index_path_def OUT_DIR_def example_path_v2_def)
  show "node_at (snd second_run) example_path = node_at (snd first_run) example_path"
    by (simp add: f node_at_def index_path_def OUT_DIR_def example_path_def example_path_v2_def)
qed

text \<open>
  Claim C7. The index file only grows, by one line per invocation. Whatever an invocation of
  \<^verbatim>\<open>main\<close> returns, the content the index had before is a prefix of the content it has
  afterwards. An invocation that returns appends exactly one line (a text without line
  feed, then a line feed) to that content, or to the header when there was no index yet;
  an invocation that raises leaves the content as it was, or leaves a new index that holds
  the header only.
\<close>

theorem index_append_only:
  assumes "main sr rb clk fs = (r, fs')"
  shows "(\<forall>c. node_at fs index_path = Some (File c) \<longrightarrow>
            (\<exists>sfx. node_at fs' index_path = Some (File (c @ sfx))) \<and>
            (\<forall>e. r = Inl e \<longrightarrow> node_at fs' index_path = Some (File c)) \<and>
            (\<forall>p. r = Inr p \<longrightarrow>
               (\<exists>b. CHR 0x0A \<notin> set b \<and>
                    node_at fs' index_path = Some (File (c @ b @ [CHR 0x0A]))))) \<and>
         (node_at fs index_path = None \<longrightarrow>
            (\<forall>e. r = Inl e \<longrightarrow>
               node_at fs' index_path = None \<or>
               node_at fs' index_path = Some (File index_header)) \<and>
            (\<forall>p. r = Inr p \<longrightarrow>
               (\<exists>b. CHR 0x0A \<notin> set b \<and>
                    node_at fs' index_path = Some (File (index_header @ b @ [CHR 0x0A])))))"
proof (cases r)
  case (Inl e)
  with assms have "main sr rb clk fs = (Inl e, fs')" by simp
  from main_Inl_index [OF this] Inl show ?thesis by auto
next
  case (Inr p)
  with assms have "main sr rb clk fs = (Inr p, fs')" by simp
  from main_Inr_index [OF this] obtain b where
    b: "CHR 0x0A \<notin> set b" "node_at fs' index_path =
             Some (File ((case node_at fs index_path of Some (File c) \<Rightarrow> c | _ \<Rightarrow> index_header)
                         @ b @ [CHR 0x0A]))"
    by blast
  have one: "\<exists>b. CHR 0x0A \<notin> set b \<and> node_at fs' index_path = Some (File (c @ b @ [CHR 0x0A]))"
    if "node_at fs index_path = Some (File c)" for c
    using b that by auto
  have two: "\<exists>b. CHR 0x0A \<notin> set b \<and>
      node_at fs' index_path = Some (File (index_header @ b @ [CHR 0x0A]))"
    if "node_at fs index_path = None"
    using b that by auto
  from one have pre: "\<exists>sfx. node_at fs' index_path = Some (File (c @ sfx))"
    if "node_at fs index_path = Some (File c)" for c
    using that by blast
  from one two pre Inr show ?thesis by simp
qed

theorem index_append_only_witness:
  "main example_seed replay_randbelow (fixed_clock morning) fmempty = (fst first_run, snd first_run) \<and>
   node_at fmempty index_path = None \<and> fst first_run = Inr example_path \<and>
   (\<exists>b. CHR 0x0A \<notin> set b \<and>
        node_at (snd first_run) index_path = Some (File (index_header @ b @ [CHR 0x0A]))) \<and>
   main example_seed replay_randbelow (fixed_clock evening) (snd first_run)
     = (fst second_run, snd second_run) \<and>
   node_at (snd first_run) index_path
     = Some (File (index_header @ example_line morning example_path)) \<and>
   fst second_run = Inr example_path_v2 \<and>
   (\<exists>b. CHR 0x0A \<notin> set b \<and>
        node_at (snd second_run) index_path
          = Some (File ((index_header @ example_line morning example_path) @ b @ [CHR 0x0A])))"
proof -
  have m1: "main example_seed replay_randbelow (fixed_clock morning) fmempty
      = (fst first_run, snd first_run)"
    by (simp add: first_run_def)
  have m2: "main example_seed replay_randbelow (fixed_clock evening) (snd first_run)
      = (fst second_run, snd second_run)"
    by (simp add: second_run_def)
  have n0: "node_at fmempty index_path = None"
    by (simp add: node_at_def index_path_def)
  note r1 = first_run_facts(1) and n1 = first_run_facts(2) and r2 = second_run_facts(1)
  from index_append_only [OF m1] n0 r1
  have a: "\<exists>b. CHR 0x0A \<notin> set b \<and>
        node_at (snd first_run) index_path = Some (File (index_header @ b @ [CHR 0x0A]))"
    by blast
  from index_append_only [OF m2] n1 r2
  have b: "\<exists>b. CHR 0x0A \<notin> set b \<and>
        node_at (snd second_run) index_path
          = Some (File ((index_header @ example_line morning example_path) @ b @ [CHR 0x0A]))"
    by blast
  from m1 n0 r1 a m2 n1 r2 b show ?thesis by (intro conjI)
qed

section \<open>Generated files are never overwritten\<close>

lemma base_not_versioned:
  "d @ ''_'' @ sl @ ''.py'' \<noteq> versioned_name d sl k"
  by (simp add: versioned_name_def)

lemma same_date_seed:
  assumes "year d1 = year d2" and "month d1 = month d2" and "day d1 = day d2"
  shows "today_seed d1 = today_seed d2"
  using same_date_formats(1) [OF assms] by (simp add: today_seed_def)

lemma main_path:
  assumes "main sr rb clk fs = (Inr p, fs')"
  shows "\<exists>t ps. selection sr rb (at_seed clk) = Inr (t, ps) \<and>
           (\<not> path_exists fs (base_path clk t) \<longrightarrow> p = base_path clk t) \<and>
           (path_exists fs (base_path clk t) \<longrightarrow>
              (\<exists>k\<ge>2. p = versioned_path clk t k \<and>
                 (\<forall>j. 2 \<le> j \<and> j < k \<longrightarrow> path_exists fs (versioned_path clk t j))))"
proof -
  let ?yd = "OUT_DIR @ [strftime_year (at_year clk)]"
  let ?ds = "strftime_date (at_date clk)"
  from main_effect(1) [OF assms] obtain t ps where
    s: "selection sr rb (at_seed clk) = Inr (t, ps)"
    and p: "p = find_free fs ?yd ?ds (slugify (name t))
                  (?yd @ [?ds @ ''_'' @ slugify (name t) @ ''.py'']) 2"
    by blast
  have b: "?yd @ [?ds @ ''_'' @ slugify (name t) @ ''.py''] = base_path clk t"
    by (simp add: base_path_def)
  have v: "?yd @ [versioned_name ?ds (slugify (name t)) k] = versioned_path clk t k" for k
    by (simp add: versioned_path_def)
  have one: "p = base_path clk t" if "\<not> path_exists fs (base_path clk t)"
    using p that unfolding b by (simp add: find_free_first)
  have two: "\<exists>k\<ge>2. p = versioned_path clk t k \<and>
                 (\<forall>j. 2 \<le> j \<and> j < k \<longrightarrow> path_exists fs (versioned_path clk t j))"
    if "path_exists fs (base_path clk t)"
    using find_free_search [OF that, of 2 ?yd ?ds "slugify (name t)"] p unfolding b v by simp
  from s one two show ?thesis by blast
qed

lemma main_in_year_dir:
  assumes "main sr rb clk fs = (Inr p, fs')"
  shows "\<exists>nm. p = OUT_DIR @ [strftime_year (at_year clk), nm]" and "p \<noteq> index_path"
proof -
  from main_Inr [OF assms] obtain sd fsE t ps where
    "draw_selection rb (sr sd) = Inr (t, ps)" and w: "main_write t ps clk fsE = (Inr p, fs')"
    by blast
  from main_write_Inr_index(2) [OF w]
  show a: "\<exists>nm. p = OUT_DIR @ [strftime_year (at_year clk), nm]" .
  then show "p \<noteq> index_path" by (auto simp: index_path_def OUT_DIR_def)
qed

lemma second_run_path:
  assumes m1: "main sr rb clk fs = (Inr p, fs1)" and m2: "main sr rb clk' fs1 = (Inr p', fs2)"
    and s: "selection sr rb (at_seed clk) = Inr (t, ps)"
    and seed: "year (at_seed clk') = year (at_seed clk)" "month (at_seed clk') = month (at_seed clk)"
      "day (at_seed clk') = day (at_seed clk)"
    and date: "year (at_date clk') = year (at_date clk)" "month (at_date clk') = month (at_date clk)"
      "day (at_date clk') = day (at_date clk)"
    and yr: "year (at_year clk') = year (at_year clk)"
  shows "\<exists>k\<ge>2. p' = versioned_path clk t k"
    and "\<not> path_exists fs (base_path clk t) \<Longrightarrow> \<not> path_exists fs (versioned_path clk t 2) \<Longrightarrow>
           p = base_path clk t \<and> p' = versioned_path clk t 2"
proof -
  from same_date_seed [OF seed] s have s': "selection sr rb (at_seed clk') = Inr (t, ps)"
    by (simp add: selection_def)
  have y: "strftime_year (at_year clk') = strftime_year (at_year clk)"
    using yr by (simp add: strftime_year_def)
  have d: "strftime_date (at_date clk') = strftime_date (at_date clk)"
    using same_date_formats(2) [OF date] .
  have b: "base_path clk' u = base_path clk u" for u :: "'a template"
    by (simp add: base_path_def y d)
  have v: "versioned_path clk' u k = versioned_path clk u k" for k and u :: "'a template"
    by (simp add: versioned_path_def y d)
  from main_path [OF m1] s have p1: "\<not> path_exists fs (base_path clk t) \<Longrightarrow> p = base_path clk t"
    by auto
  from main_effect(3) [OF m1] obtain content where c: "node_at fs1 p = Some (File content)"
    by blast
  have bi: "base_path clk t \<noteq> index_path"
    by (simp add: base_path_def index_path_def OUT_DIR_def)
  have ex: "path_exists fs1 (base_path clk t)"
  proof (cases "path_exists fs (base_path clk t)")
    case True
    then obtain n where "node_at fs (base_path clk t) = Some n"
      by (auto simp: path_exists_def)
    from main_effect(4) [OF m1 this bi] show ?thesis by (simp add: path_exists_def)
  next
    case False
    with p1 c show ?thesis by (simp add: path_exists_def)
  qed
  from main_path [OF m2, unfolded b v] s' ex
  obtain k where k: "2 \<le> k" "p' = versioned_path clk t k"
    and below: "\<forall>j. 2 \<le> j \<and> j < k \<longrightarrow> path_exists fs1 (versioned_path clk t j)"
    by auto
  from k show "\<exists>k\<ge>2. p' = versioned_path clk t k" by blast
  show "p = base_path clk t \<and> p' = versioned_path clk t 2"
    if free: "\<not> path_exists fs (base_path clk t)" "\<not> path_exists fs (versioned_path clk t 2)"
  proof -
    from p1 free(1) have p: "p = base_path clk t" .
    have "versioned_path clk t 2 \<noteq> p"
      unfolding p by (simp add: versioned_path_def base_path_def versioned_name_def)
    then have "OUT_DIR @ [strftime_year (at_year clk),
        versioned_name (strftime_date (at_date clk)) (slugify (name t)) 2] \<noteq> p"
      by (simp add: versioned_path_def)
    from main_effect(5) [OF m1 this] free(2)
    have nv: "\<not> path_exists fs1 (versioned_path clk t 2)"
      by (simp add: versioned_path_def path_exists_def)
    have "k = 2"
    proof (rule ccontr)
      assume "k \<noteq> 2"
      with k(1) have "2 < k" by simp
      with below have "path_exists fs1 (versioned_path clk t 2)" by simp
      with nv show False by simp
    qed
    with p k(2) show ?thesis by simp
  qed
qed

text \<open>
  Claim C2. \<^verbatim>\<open>main\<close> never overwrites a generated file. The path an invocation writes did not
  exist before and holds a file afterwards; every entry that existed, the index apart
  (it is appended to), is still there unchanged. The path is the base path
  \<^verbatim>\<open><date>_<slug>.py\<close> when that is free, and otherwise the path with the least suffix
  \<^verbatim>\<open>_v2\<close>, \<^verbatim>\<open>_v3\<close>, ... that is free. A later invocation writes another path and
  leaves the first file as it is; on the same date it writes a path with a suffix, which
  is \<^verbatim>\<open>_v2\<close> when neither the base path nor the \<^verbatim>\<open>_v2\<close> path existed before the first.
\<close>

theorem generated_file_never_overwritten:
  assumes "main sr rb clk fs = (Inr p, fs1)"
  shows "\<not> path_exists fs p \<and>
         (\<exists>content. node_at fs1 p = Some (File content)) \<and>
         (\<forall>q n. node_at fs q = Some n \<and> q \<noteq> index_path \<longrightarrow> node_at fs1 q = Some n) \<and>
         (\<exists>t ps. selection sr rb (at_seed clk) = Inr (t, ps) \<and>
            (\<not> path_exists fs (base_path clk t) \<longrightarrow> p = base_path clk t) \<and>
            (path_exists fs (base_path clk t) \<longrightarrow>
               (\<exists>k\<ge>2. p = versioned_path clk t k \<and>
                  (\<forall>j. 2 \<le> j \<and> j < k \<longrightarrow> path_exists fs (versioned_path clk t j)))) \<and>
            (\<forall>clk' p' fs2. main sr rb clk' fs1 = (Inr p', fs2) \<longrightarrow>
               p' \<noteq> p \<and> \<not> path_exists fs1 p' \<and> node_at fs2 p = node_at fs1 p \<and>
               (year (at_seed clk') = year (at_seed clk) \<and>
                month (at_seed clk') = month (at_seed clk) \<and>
                day (at_seed clk') = day (at_seed clk) \<and>
                year (at_date clk') = year (at_date clk) \<and>
                month (at_date clk') = month (at_date clk) \<and>
                day (at_date clk') = day (at_date clk) \<and>
                year (at_year clk') = year (at_year clk) \<longrightarrow>
                  (\<exists>k\<ge>2. p' = versioned_path clk t k) \<and>
                  (\<not> path_exists fs (base_path clk t) \<and>
                   \<not> path_exists fs (versioned_path clk t 2) \<longrightarrow>
                     p = base_path clk t \<and> p' = versioned_path clk t 2))))"
proof -
  note free = main_effect(2) [OF assms]
  from main_effect(3) [OF assms] obtain content where c: "node_at fs1 p = Some (File content)"
    by blast
  have keep: "\<forall>q n. node_at fs q = Some n \<and> q \<noteq> index_path \<longrightarrow> node_at fs1 q = Some n"
    using main_effect(4) [OF assms] by blast
  from main_path [OF assms] obtain t ps where
    s: "selection sr rb (at_seed clk) = Inr (t, ps)"
    and one: "\<not> path_exists fs (base_path clk t) \<longrightarrow> p = base_path clk t"
    and two: "path_exists fs (base_path clk t) \<longrightarrow>
               (\<exists>k\<ge>2. p = versioned_path clk t k \<and>
                  (\<forall>j. 2 \<le> j \<and> j < k \<longrightarrow> path_exists fs (versioned_path clk t j)))"
    by blast
  have later: "p' \<noteq> p \<and> \<not> path_exists fs1 p' \<and> node_at fs2 p = node_at fs1 p \<and>
               (year (at_seed clk') = year (at_seed clk) \<and>
                month (at_seed clk') = month (at_seed clk) \<and>
                day (at_seed clk') = day (at_seed clk) \<and>
                year (at_date clk') = year (at_date clk) \<and>
                month (at_date clk') = month (at_date clk) \<and>
                day (at_date clk') = day (at_date clk) \<and>
                year (at_year clk') = year (at_year clk) \<longrightarrow>
                  (\<exists>k\<ge>2. p' = versioned_path clk t k) \<and>
                  (\<not> path_exists fs (base_path clk t) \<and>
                   \<not> path_exists fs (versioned_path clk t 2) \<longrightarrow>
                     p = base_path clk t \<and> p' = versioned_path clk t 2))"
    if m2: "main sr rb clk' fs1 = (Inr p', fs2)" for clk' p' fs2
  proof -
    note free2 = main_effect(2) [OF m2]
    with c have ne: "p' \<noteq> p" by (auto simp: path_exists_def)
    from main_effect(4) [OF m2 c main_in_year_dir(2) [OF assms]] c
    have same: "node_at fs2 p = node_at fs1 p" by simp
    from ne free2 same second_run_path [OF assms m2 s] show ?thesis by blast
  qed
  from free c keep s one two later show ?thesis by blast
qed

theorem generated_file_never_overwritten_witness:
  "main example_seed replay_randbelow (fixed_clock morning) fmempty
     = (Inr example_path, snd first_run) \<and>
   main example_seed replay_randbelow (fixed_clock evening) (snd first_run)
     = (Inr example_path_v2, snd second_run) \<and>
   year evening = year morning \<and> month evening = month morning \<and> day evening = day morning \<and>
   path_exists fmempty example_path = False \<and> path_exists fmempty example_path_v2 = False \<and>
   (\<exists>content. node_at (snd first_run) example_path = Some (File content)) \<and>
   example_path_v2 \<noteq> example_path \<and>
   path_exists (snd first_run) example_path_v2 = False \<and>
   node_at (snd second_run) example_path = node_at (snd first_run) example_path \<and>
   (\<exists>t :: nat list template.
      base_path (fixed_clock morning) t = example_path \<and>
      versioned_path (fixed_clock morning) t 2 = example_path_v2)"
proof -
  let ?am = "fixed_clock morning" and ?pm = "fixed_clock evening"
  have m1: "main example_seed replay_randbelow ?am fmempty = (Inr example_path, snd first_run)"
    using first_run_facts(1) by (simp add: first_run_def [symmetric] prod_eq_iff)
  have m2: "main example_seed replay_randbelow ?pm (snd first_run)
      = (Inr example_path_v2, snd second_run)"
    using second_run_facts(1) by (simp add: second_run_def [symmetric] prod_eq_iff)
  have dates: "year evening = year morning" "month evening = month morning"
    "day evening = day morning"
    by (simp_all add: morning_def evening_def)
  have empty: "path_exists fmempty q = False" if "q \<noteq> []" for q
    using that by (simp add: path_exists_def node_at_def)
  from generated_file_never_overwritten [OF m1] obtain t :: "nat list template" where
    c: "\<exists>content. node_at (snd first_run) example_path = Some (File content)"
    and later: "\<forall>clk' p' fs2. main example_seed replay_randbelow clk' (snd first_run) = (Inr p', fs2) \<longrightarrow>
               p' \<noteq> example_path \<and> \<not> path_exists (snd first_run) p' \<and>
               node_at fs2 example_path = node_at (snd first_run) example_path \<and>
               (year (at_seed clk') = year (at_seed ?am) \<and>
                month (at_seed clk') = month (at_seed ?am) \<and>
                day (at_seed clk') = day (at_seed ?am) \<and>
                year (at_date clk') = year (at_date ?am) \<and>
                month (at_date clk') = month (at_date ?am) \<and>
                day (at_date clk') = day (at_date ?am) \<and>
                year (at_year clk') = year (at_year ?am) \<longrightarrow>
                  (\<exists>k\<ge>2. p' = versioned_path ?am t k) \<and>
                  (\<not> path_exists fmempty (base_path ?am t) \<and>
                   \<not> path_exists fmempty (versioned_path ?am t 2) \<longrightarrow>
                     example_path = base_path ?am t \<and> p' = versioned_path ?am t 2))"
    by blast
  note l = later [rule_format, OF m2]
  have f: "\<not> path_exists fmempty (base_path ?am t)" "\<not> path_exists fmempty (versioned_path ?am t 2)"
    by (simp_all add: empty base_path_def versioned_path_def OUT_DIR_def)
  from l dates f have n: "example_path = base_path ?am t \<and> example_path_v2 = versioned_path ?am t 2"
    by (simp add: fixed_clock_def)
  then have ex: "\<exists>t :: nat list template.
      base_path ?am t = example_path \<and> versioned_path ?am t 2 = example_path_v2"
    by metis
  from l have a: "example_path_v2 \<noteq> example_path"
    and b: "path_exists (snd first_run) example_path_v2 = False"
    and d: "node_at (snd second_run) example_path = node_at (snd first_run) example_path"
    by simp_all
  have e1: "path_exists fmempty example_path = False" "path_exists fmempty example_path_v2 = False"
    by (simp_all add: empty example_path_def example_path_v2_def)
  from m1 m2 dates e1 c a b d ex show ?thesis by (intro conjI)
qed

section \<open>Two defects of the generator\<close>

lemma length_templates: "length (templates :: 's template list) = 5"
  by (simp add: templates_def)

lemma fifth_template:
  "name (templates ! 4) = ''dijkstra_on_grid''" "params (templates ! 4) = params_dijkstra_on_grid"
  "code (templates ! 4) = code_dijkstra_on_grid"
  by (simp_all add: templates_def)

lemma pick_20250712:
  "pick_template replay_randbelow draws_20250712 = Inr (templates ! 4, tl draws_20250712)"
  by (simp add: pick_template_def choice_def replay_randbelow_def draws_20250712_def
      length_templates)

lemma params_20250712:
  "params_dijkstra_on_grid replay_randbelow (tl draws_20250712)
     = Inr ([(''GRID'', PyGrid grid_20250712)], [])"
  by code_simp

lemma draw_20250712:
  "draw_selection replay_randbelow draws_20250712
     = Inr (templates ! 4, [(''GRID'', PyGrid grid_20250712)])"
  by (simp add: draw_selection_def pick_20250712 fifth_template params_20250712)

lemma dijkstra_20250712: "dijkstra 6 grid_20250712 = Some (Inl IndexError)"
  by code_simp

lemma dijkstra_rectangular:
  "dijkstra 17 [[6, 2, 2, 2, 9], [7, 9, 8, 4, 1], [3, 4, 6, 3, 1], [6, 3, 3, 7, 5]] = Some (Inr 23)"
  by code_simp

text \<open>
  Claim C3 does not hold of the code. The \<^verbatim>\<open>params\<close> lambda of \<^verbatim>\<open>dijkstra_on_grid\<close> draws
  \<^verbatim>\<open>r.randint(4, 6)\<close> anew for every row, so the rows of \<^verbatim>\<open>GRID\<close> differ in length. With
  the draws of 2025-07-12 the fifth template is selected, the rows have lengths 5, 4, 4 and
  6, and the template's \<^verbatim>\<open>dijkstra\<close>, which takes the column bound from the first row,
  raises \<^verbatim>\<open>IndexError\<close> in its sixth iteration, at \<^verbatim>\<open>grid[1][4]\<close>.
\<close>

theorem dijkstra_grid_not_rectangular:
  "draw_selection replay_randbelow draws_20250712
     = Inr (templates ! 4, [(''GRID'', PyGrid grid_20250712)]) \<and>
   name (templates ! 4 :: nat list template) = ''dijkstra_on_grid'' \<and>
   map length grid_20250712 = [5, 4, 4, 6] \<and>
   py_index2 grid_20250712 1 4 = Inl IndexError \<and>
   dijkstra 5 grid_20250712 = None \<and>
   dijkstra 6 grid_20250712 = Some (Inl IndexError)"
proof -
  have a: "map length grid_20250712 = [5, 4, 4, 6]"
    by (simp add: grid_20250712_def)
  have b: "py_index2 grid_20250712 1 4 = Inl IndexError"
    by (simp add: py_index2_def py_index_def grid_20250712_def)
  have c: "dijkstra 5 grid_20250712 = None"
    by code_simp
  from draw_20250712 fifth_template(1) a b c dijkstra_20250712 show ?thesis
    by (intro conjI)
qed

lemma example_line_morning:
  "example_line morning example_path =
     ''- 2024-01-01 06:30 UTC: [fibonacci_iterative](daily_code/2024/2024-01-01_fibonacci_iterative.py) ''
     @ written_separator @ '' Compute the first N Fibonacci numbers iteratively.\<newline>''"
  by (simp add: example_line_def index_line_def morning_formats as_posix_def example_path_def)

text \<open>
  Claim C8 does not hold of the code. The line \<^verbatim>\<open>update_index\<close> appends has the bullet, the
  timestamp, the link with the template's name as its text and the relative path, and the
  description, but between link and description it has the three characters U+00E2,
  U+20AC, U+201D (eight bytes in the file), which is what an em dash becomes when its
  UTF-8 bytes are read as Windows-1252; it has no em dash (U+2014, three bytes). Shown on
  the first invocation of 2024-01-01, 06:30 UTC, on an empty repository.
\<close>

theorem index_line_has_no_em_dash:
  "fst first_run = Inr example_path \<and>
   node_at (snd first_run) index_path =
     Some (File (index_header @
       ''- 2024-01-01 06:30 UTC: [fibonacci_iterative](daily_code/2024/2024-01-01_fibonacci_iterative.py) ''
       @ [CHR 0xC3, CHR 0xA2, CHR 0xE2, CHR 0x82, CHR 0xAC, CHR 0xE2, CHR 0x80, CHR 0x9D]
       @ '' Compute the first N Fibonacci numbers iteratively.\<newline>'')) \<and>
   em_dash = [CHR 0xE2, CHR 0x80, CHR 0x94] \<and>
   node_at (snd first_run) index_path \<noteq>
     Some (File (index_header @
       ''- 2024-01-01 06:30 UTC: [fibonacci_iterative](daily_code/2024/2024-01-01_fibonacci_iterative.py) ''
       @ em_dash @ '' Compute the first N Fibonacci numbers iteratively.\<newline>'')) \<and>
   \<not> occurs_in em_dash (example_line morning example_path)"
proof -
  have w: "node_at (snd first_run) index_path =
     Some (File (index_header @
       ''- 2024-01-01 06:30 UTC: [fibonacci_iterative](daily_code/2024/2024-01-01_fibonacci_iterative.py) ''
       @ [CHR 0xC3, CHR 0xA2, CHR 0xE2, CHR 0x82, CHR 0xAC, CHR 0xE2, CHR 0x80, CHR 0x9D]
       @ '' Compute the first N Fibonacci numbers iteratively.\<newline>''))"
    using first_run_facts(2) by (simp add: example_line_morning written_separator_def)
  have n: "node_at (snd first_run) index_path \<noteq>
     Some (File (index_header @
       ''- 2024-01-01 06:30 UTC: [fibonacci_iterative](daily_code/2024/2024-01-01_fibonacci_iterative.py) ''
       @ em_dash @ '' Compute the first N Fibonacci numbers iteratively.\<newline>''))"
    unfolding w by (simp add: em_dash_def)
  have o: "\<not> occurs_in em_dash (example_line morning example_path)"
    unfolding example_line_morning by code_simp
  from first_run_facts(1) w n o show ?thesis
    by (simp add: em_dash_def)
qed

end
